theory Spec2Isabelle
  imports Main "HOL-Library.Word" "HOL-Library.Monad_Syntax"
begin

unbundle bit_operations_syntax

section \<open>Data model of BinaryTree.h\<close>

text \<open>
  A \<^verbatim>\<open>TreeNode_t*\<close> is an address or \<^verbatim>\<open>NULL\<close>; \<^verbatim>\<open>NULL\<close> is \<open>None\<close>.
  The \<^verbatim>\<open>void*\<close> payload and context pointers are modelled the same way.
  The store maps the addresses that hold a node to the node's four fields; an address
  outside the store is a dangling pointer.
\<close>

type_synonym addr = nat
type_synonym ptr = "addr option"

record TreeNode =
  parent :: ptr
  left :: ptr
  right :: ptr
  data :: ptr

type_synonym heap = "addr \<Rightarrow> TreeNode option"

datatype TreeErrorCode =
    ERR_SUCCESS
  | ERR_FAILURE
  | ERR_INVALID_POINTER
  | ERR_MEM
  | ERR_WRONG_PARAM
  | ERR_NODE_EXIST

text \<open>
  \<^verbatim>\<open>INSERT_POS_LEFT\<close> is \<^verbatim>\<open>((int)0x01)\<close>, \<^verbatim>\<open>INSERT_POS_RIGHT\<close> is \<^verbatim>\<open>((int)0x00)\<close>,
  and \<^verbatim>\<open>INSERT_MODE_MASK\<close> is their bitwise or. The C \<^verbatim>\<open>int\<close> is a machine word of
  any width.
\<close>

definition INSERT_POS_LEFT :: "'a::len word" where
  "INSERT_POS_LEFT = 1"

definition INSERT_POS_RIGHT :: "'a::len word" where
  "INSERT_POS_RIGHT = 0"

definition INSERT_MODE_MASK :: "'a::len word" where
  "INSERT_MODE_MASK = INSERT_POS_LEFT OR INSERT_POS_RIGHT"

section \<open>Node lifecycle and linkage (BinaryTree.c)\<close>

text \<open>
  Every operation returns an option. \<open>None\<close> means that the call does not return
  normally: \<^verbatim>\<open>ASSERT(x)\<close> is \<^verbatim>\<open>do {while(!(x));} while(0)\<close>, which spins forever on a
  false condition, and an access through a dangling pointer has no defined result.
\<close>

definition empty_node :: TreeNode where
  "empty_node = \<lparr>parent = None, left = None, right = None, data = None\<rparr>"

text \<open>A write \<^verbatim>\<open>p->field = v\<close> through the address \<open>a\<close>.\<close>

definition store_node :: "addr \<Rightarrow> (TreeNode \<Rightarrow> TreeNode) \<Rightarrow> heap \<Rightarrow> heap option" where
  "store_node a f h = (case h a of None \<Rightarrow> None | Some n \<Rightarrow> Some (h(a \<mapsto> f n)))"

definition Tree_NodeInit :: "ptr \<Rightarrow> heap \<Rightarrow> heap option" where
  "Tree_NodeInit pNode h =
     (case pNode of
        None \<Rightarrow> None
      | Some a \<Rightarrow>
          store_node a (\<lambda>n. n\<lparr>parent := None, left := None, right := None, data := None\<rparr>) h)"

definition Tree_NodeDelete :: "ptr \<Rightarrow> heap \<Rightarrow> (TreeErrorCode \<times> heap) option" where
  "Tree_NodeDelete pNode h =
     (case pNode of
        None \<Rightarrow> None
      | Some a \<Rightarrow>
          (case h a of
             None \<Rightarrow> None
           | Some n \<Rightarrow>
               if left n \<noteq> None \<or> right n \<noteq> None then Some (ERR_FAILURE, h)
               else do {
                 h2 \<leftarrow> (case parent n of
                          None \<Rightarrow> Some h
                        | Some pParent \<Rightarrow> do {
                            P \<leftarrow> h pParent;
                            h1 \<leftarrow> (if left P = Some a
                                   then store_node pParent (\<lambda>m. m\<lparr>left := None\<rparr>) h
                                   else Some h);
                            P1 \<leftarrow> h1 pParent;
                            (if right P1 = Some a
                             then store_node pParent (\<lambda>m. m\<lparr>right := None\<rparr>) h1
                             else Some h1)
                          });
                 h3 \<leftarrow> Tree_NodeInit pNode h2;
                 Some (ERR_SUCCESS, h3)
               }))"

definition Tree_NodeValueSet :: "ptr \<Rightarrow> ptr \<Rightarrow> heap \<Rightarrow> (TreeErrorCode \<times> heap) option" where
  "Tree_NodeValueSet pNode Value h =
     (case pNode of
        None \<Rightarrow> Some (ERR_INVALID_POINTER, h)
      | Some a \<Rightarrow> do {
          h1 \<leftarrow> store_node a (\<lambda>n. n\<lparr>data := Value\<rparr>) h;
          Some (ERR_SUCCESS, h1)
        })"

definition Tree_NodeValueGet :: "ptr \<Rightarrow> heap \<Rightarrow> ptr option" where
  "Tree_NodeValueGet pNode h =
     (case pNode of
        None \<Rightarrow> Some None
      | Some a \<Rightarrow> map_option data (h a))"

definition Tree_NodeAppend ::
  "ptr \<Rightarrow> ptr \<Rightarrow> 'a::len word \<Rightarrow> heap \<Rightarrow> (TreeErrorCode \<times> heap) option" where
  "Tree_NodeAppend pNode pNewNode Mode h =
     (case (pNode, pNewNode) of
        (Some a, Some b) \<Rightarrow>
          if Mode AND NOT INSERT_MODE_MASK \<noteq> 0 then Some (ERR_WRONG_PARAM, h)
          else if Mode AND INSERT_MODE_MASK = INSERT_POS_LEFT then do {
            n \<leftarrow> h a;
            if left n = None then do {
              h1 \<leftarrow> store_node a (\<lambda>m. m\<lparr>left := pNewNode\<rparr>) h;
              h2 \<leftarrow> store_node b (\<lambda>m. m\<lparr>parent := pNode\<rparr>) h1;
              Some (ERR_SUCCESS, h2)
            } else Some (ERR_NODE_EXIST, h)
          }
          else if Mode AND INSERT_MODE_MASK = INSERT_POS_RIGHT then do {
            n \<leftarrow> h a;
            if right n = None then do {
              h1 \<leftarrow> store_node a (\<lambda>m. m\<lparr>right := pNewNode\<rparr>) h;
              h2 \<leftarrow> store_node b (\<lambda>m. m\<lparr>parent := pNode\<rparr>) h1;
              Some (ERR_SUCCESS, h2)
            } else Some (ERR_NODE_EXIST, h)
          }
          else Some (ERR_WRONG_PARAM, h)
      | _ \<Rightarrow> Some (ERR_INVALID_POINTER, h))"


section \<open>References to node pointers, subtree deletion and storage release\<close>

text \<open>
  A \<^verbatim>\<open>TreeNode_t**\<close> is the address of a pointer cell: a pointer variable of the caller,
  or the \<^verbatim>\<open>left\<close> or \<^verbatim>\<open>right\<close> field of a node (the recursion passes \<^verbatim>\<open>&pNode->left\<close>
  and \<^verbatim>\<open>&pNode->right\<close>). The state holds the node store and the caller's pointer
  variables.
\<close>

datatype ref = Var nat | LeftOf addr | RightOf addr

record state =
  heap :: heap
  vars :: "nat \<Rightarrow> ptr option"

fun load_ref :: "ref \<Rightarrow> state \<Rightarrow> ptr option" where
  "load_ref (Var v) s = vars s v"
| "load_ref (LeftOf a) s = map_option left (heap s a)"
| "load_ref (RightOf a) s = map_option right (heap s a)"

fun store_ref :: "ref \<Rightarrow> ptr \<Rightarrow> state \<Rightarrow> state option" where
  "store_ref (Var v) p s =
     (case vars s v of None \<Rightarrow> None | Some _ \<Rightarrow> Some (s\<lparr>vars := (vars s)(v \<mapsto> p)\<rparr>))"
| "store_ref (LeftOf a) p s =
     do { h \<leftarrow> store_node a (\<lambda>m. m\<lparr>left := p\<rparr>) (heap s); Some (s\<lparr>heap := h\<rparr>) }"
| "store_ref (RightOf a) p s =
     do { h \<leftarrow> store_node a (\<lambda>m. m\<lparr>right := p\<rparr>) (heap s); Some (s\<lparr>heap := h\<rparr>) }"

text \<open>
  The recursion follows the child pointers of the store, so on a cyclic store it never
  returns; the value is then \<open>None\<close>. The results of the two recursive calls and of
  \<^verbatim>\<open>Tree_NodeDelete\<close> are discarded, as in the source.
\<close>

partial_function (option) Tree_SubTreeDelete_Static ::
  "ref option \<Rightarrow> state \<Rightarrow> (TreeErrorCode \<times> state) option" where
  "Tree_SubTreeDelete_Static ppNode s =
     (case ppNode of
        None \<Rightarrow> None
      | Some r \<Rightarrow> do {
          pNode \<leftarrow> load_ref r s;
          (case pNode of
             None \<Rightarrow> Some (ERR_FAILURE, s)
           | Some a \<Rightarrow> do {
               (e1, s1) \<leftarrow> Tree_SubTreeDelete_Static (Some (LeftOf a)) s;
               (e2, s2) \<leftarrow> Tree_SubTreeDelete_Static (Some (RightOf a)) s1;
               (e3, h3) \<leftarrow> Tree_NodeDelete pNode (heap s2);
               s4 \<leftarrow> store_ref r None (s2\<lparr>heap := h3\<rparr>);
               Some (ERR_SUCCESS, s4)
             })
        })"

text \<open>\<^verbatim>\<open>free(p)\<close>: the address leaves the store; \<^verbatim>\<open>free(NULL)\<close> does nothing.\<close>

definition free_node :: "ptr \<Rightarrow> heap \<Rightarrow> heap option" where
  "free_node p h =
     (case p of
        None \<Rightarrow> Some h
      | Some a \<Rightarrow> (case h a of None \<Rightarrow> None | Some _ \<Rightarrow> Some (h(a := None))))"

definition Tree_NodeDestory :: "ref option \<Rightarrow> state \<Rightarrow> (TreeErrorCode \<times> state) option" where
  "Tree_NodeDestory ppNode s =
     (case ppNode of
        None \<Rightarrow> None
      | Some r \<Rightarrow> do {
          pNode \<leftarrow> load_ref r s;
          (ErrCode, h1) \<leftarrow> Tree_NodeDelete pNode (heap s);
          if ERR_SUCCESS \<noteq> ErrCode then Some (ErrCode, s\<lparr>heap := h1\<rparr>)
          else do {
            h2 \<leftarrow> free_node pNode h1;
            s3 \<leftarrow> store_ref r None (s\<lparr>heap := h2\<rparr>);
            Some (ERR_SUCCESS, s3)
          }
        })"

section \<open>Depth query and traversal\<close>

text \<open>
  The depth is computed in unbounded integers: it is at most the number of nodes on the
  longest path, far below the range of a C \<^verbatim>\<open>int\<close> for any tree the recursion can walk.
\<close>

partial_function (option) Tree_DepthGet :: "heap \<Rightarrow> ptr \<Rightarrow> int option" where
  "Tree_DepthGet h pNode =
     (case pNode of
        None \<Rightarrow> Some 0
      | Some a \<Rightarrow> do {
          n \<leftarrow> h a;
          LChildDeep \<leftarrow> Tree_DepthGet h (left n);
          RChildDeep \<leftarrow> Tree_DepthGet h (right n);
          Some (if LChildDeep \<ge> RChildDeep then LChildDeep + 1 else RChildDeep + 1)
        })"

text \<open>
  A callback \<^verbatim>\<open>int (*)(void* Context, void* Data)\<close> acts on the caller's world \<open>'w\<close> and
  returns an \<^verbatim>\<open>int\<close>, which the walkers discard. The callback gets no access to the node
  store. A \<^verbatim>\<open>NULL\<close> callback is \<open>None\<close>.
\<close>

type_synonym 'w TreeCallBackFun_t = "ptr \<Rightarrow> ptr \<Rightarrow> 'w \<Rightarrow> int \<times> 'w"

partial_function (option) Tree_TravesePreOrder ::
  "heap \<Rightarrow> ptr \<Rightarrow> 'w TreeCallBackFun_t option \<Rightarrow> ptr \<Rightarrow> 'w \<Rightarrow> (TreeErrorCode \<times> 'w) option"
  where
  "Tree_TravesePreOrder h pNode pFun Ctx w =
     (case (pNode, pFun) of
        (Some a, Some f) \<Rightarrow> do {
          n \<leftarrow> h a;
          (r0, w0) \<leftarrow> Some (f Ctx (data n) w);
          (e1, w1) \<leftarrow> Tree_TravesePreOrder h (left n) pFun Ctx w0;
          (e2, w2) \<leftarrow> Tree_TravesePreOrder h (right n) pFun Ctx w1;
          Some (ERR_SUCCESS, w2)
        }
      | _ \<Rightarrow> Some (ERR_INVALID_POINTER, w))"

partial_function (option) Tree_TraveseInOrder ::
  "heap \<Rightarrow> ptr \<Rightarrow> 'w TreeCallBackFun_t option \<Rightarrow> ptr \<Rightarrow> 'w \<Rightarrow> (TreeErrorCode \<times> 'w) option"
  where
  "Tree_TraveseInOrder h pNode pFun Ctx w =
     (case (pNode, pFun) of
        (Some a, Some f) \<Rightarrow> do {
          n \<leftarrow> h a;
          (e1, w1) \<leftarrow> Tree_TraveseInOrder h (left n) pFun Ctx w;
          (r0, w0) \<leftarrow> Some (f Ctx (data n) w1);
          (e2, w2) \<leftarrow> Tree_TraveseInOrder h (right n) pFun Ctx w0;
          Some (ERR_SUCCESS, w2)
        }
      | _ \<Rightarrow> Some (ERR_INVALID_POINTER, w))"

partial_function (option) Tree_TravesePostOrder ::
  "heap \<Rightarrow> ptr \<Rightarrow> 'w TreeCallBackFun_t option \<Rightarrow> ptr \<Rightarrow> 'w \<Rightarrow> (TreeErrorCode \<times> 'w) option"
  where
  "Tree_TravesePostOrder h pNode pFun Ctx w =
     (case (pNode, pFun) of
        (Some a, Some f) \<Rightarrow> do {
          n \<leftarrow> h a;
          (e1, w1) \<leftarrow> Tree_TravesePostOrder h (left n) pFun Ctx w;
          (e2, w2) \<leftarrow> Tree_TravesePostOrder h (right n) pFun Ctx w1;
          (r0, w0) \<leftarrow> Some (f Ctx (data n) w2);
          Some (ERR_SUCCESS, w0)
        }
      | _ \<Rightarrow> Some (ERR_INVALID_POINTER, w))"


section \<open>Notions used to state the properties\<close>

text \<open>What unlinking the child \<open>a\<close> leaves of its parent: each slot that held \<open>a\<close> is absent.\<close>

definition unlink_child :: "addr \<Rightarrow> TreeNode \<Rightarrow> TreeNode" where
  "unlink_child a P =
     P\<lparr>left := (if left P = Some a then None else left P),
       right := (if right P = Some a then None else right P)\<rparr>"

text \<open>Stores used as concrete inputs.\<close>

definition fresh_pair :: heap where
  "fresh_pair = [0 \<mapsto> empty_node\<lparr>data := Some 7\<rparr>, 1 \<mapsto> empty_node]"

definition linked_pair :: heap where
  "linked_pair =
     [0 \<mapsto> \<lparr>parent = None, left = Some 1, right = None, data = Some 7\<rparr>,
      1 \<mapsto> \<lparr>parent = Some 0, left = None, right = None, data = Some 8\<rparr>,
      2 \<mapsto> empty_node]"

definition absent_root :: state where
  "absent_root = \<lparr>heap = linked_pair, vars = [0 \<mapsto> None]\<rparr>"

definition parent_root :: state where
  "parent_root = \<lparr>heap = linked_pair, vars = [0 \<mapsto> Some 0]\<rparr>"

text \<open>
  The tree root(1, left = 2(left = 4), right = 3): the node with payload \<open>k\<close> lives at
  address \<open>100 * k\<close>.
\<close>

definition four_nodes :: heap where
  "four_nodes =
     [100 \<mapsto> \<lparr>parent = None, left = Some 200, right = Some 300, data = Some 1\<rparr>,
      200 \<mapsto> \<lparr>parent = Some 100, left = Some 400, right = None, data = Some 2\<rparr>,
      300 \<mapsto> \<lparr>parent = Some 100, left = None, right = None, data = Some 3\<rparr>,
      400 \<mapsto> \<lparr>parent = Some 200, left = None, right = None, data = Some 4\<rparr>]"

text \<open>A callback that appends the pair (context, payload) of each invocation to a log.\<close>

definition record_call :: "(ptr \<times> ptr) list TreeCallBackFun_t" where
  "record_call Ctx Data w = (0, w @ [(Ctx, Data)])"

text \<open>
  The shape of a tree laid out in the store: \<open>tree_at h p t\<close> holds when following the
  child pointers from \<open>p\<close> walks exactly the shape \<open>t\<close>.
\<close>

datatype shape = Tip | Fork shape addr shape

fun nodes :: "shape \<Rightarrow> addr list" where
  "nodes Tip = []"
| "nodes (Fork l a r) = a # nodes l @ nodes r"

fun height :: "shape \<Rightarrow> nat" where
  "height Tip = 0"
| "height (Fork l a r) = 1 + max (height l) (height r)"

fun tree_at :: "heap \<Rightarrow> ptr \<Rightarrow> shape \<Rightarrow> bool" where
  "tree_at h p Tip = (p = None)"
| "tree_at h p (Fork l a r) =
     (p = Some a \<and>
      (case h a of
         None \<Rightarrow> False
       | Some n \<Rightarrow> tree_at h (left n) l \<and> tree_at h (right n) r))"

text \<open>Two stores with the same addresses and the same child pointers.\<close>

definition same_links :: "heap \<Rightarrow> heap \<Rightarrow> bool" where
  "same_links h h' =
     (\<forall>a. map_option left (h a) = map_option left (h' a) \<and>
          map_option right (h a) = map_option right (h' a))"

text \<open>
  A well-formed subtree: \<open>wf_tree h pp p t\<close> holds when the child pointers from \<open>p\<close> walk
  the shape \<open>t\<close>, the root's parent field is \<open>pp\<close> and every other node's parent field is
  the node that holds it. Together with \<open>distinct (nodes t)\<close> no node occurs twice.
\<close>

fun wf_tree :: "heap \<Rightarrow> ptr \<Rightarrow> ptr \<Rightarrow> shape \<Rightarrow> bool" where
  "wf_tree h pp p Tip = (p = None)"
| "wf_tree h pp p (Fork l a r) =
     (p = Some a \<and>
      (case h a of
         None \<Rightarrow> False
       | Some n \<Rightarrow> parent n = pp \<and> wf_tree h (Some a) (left n) l \<and>
                   wf_tree h (Some a) (right n) r))"

text \<open>The node that holds a pointer cell, if the cell is a field of a node.\<close>

fun ref_node :: "ref \<Rightarrow> addr option" where
  "ref_node (Var v) = None"
| "ref_node (LeftOf a) = Some a"
| "ref_node (RightOf a) = Some a"

text \<open>
  The state that deleting the subtree \<open>t\<close> with root \<open>a\<close> through the reference \<open>r\<close> leaves:
  the nodes of \<open>t\<close> are empty, the root's parent has lost the slots that held \<open>a\<close>, and the
  referenced cell is absent.
\<close>

definition clear_slot :: "ref \<Rightarrow> addr \<Rightarrow> TreeNode \<Rightarrow> TreeNode" where
  "clear_slot r y n =
     (if r = LeftOf y then n\<lparr>left := None\<rparr>
      else if r = RightOf y then n\<lparr>right := None\<rparr> else n)"

definition emptied :: "addr list \<Rightarrow> heap \<Rightarrow> heap" where
  "emptied ns h = (\<lambda>y. if y \<in> set ns then Some empty_node else h y)"

definition heap_after :: "addr list \<Rightarrow> addr \<Rightarrow> ref \<Rightarrow> ptr \<Rightarrow> heap \<Rightarrow> heap" where
  "heap_after ns a r pp h =
     (\<lambda>y. if y \<in> set ns then Some empty_node
          else map_option
                 (\<lambda>n. clear_slot r y (if pp = Some y then unlink_child a n else n)) (h y))"

definition vars_after :: "ref \<Rightarrow> (nat \<Rightarrow> ptr option) \<Rightarrow> (nat \<Rightarrow> ptr option)" where
  "vars_after r vs = (case r of Var v \<Rightarrow> vs(v \<mapsto> None) | _ \<Rightarrow> vs)"

definition state_after :: "shape \<Rightarrow> ref \<Rightarrow> ptr \<Rightarrow> state \<Rightarrow> state" where
  "state_after t r pp s =
     (case t of
        Tip \<Rightarrow> s
      | Fork l a rt \<Rightarrow>
          s\<lparr>heap := heap_after (nodes t) a r pp (heap s), vars := vars_after r (vars s)\<rparr>)"

definition code_after :: "shape \<Rightarrow> TreeErrorCode" where
  "code_after t = (case t of Tip \<Rightarrow> ERR_FAILURE | Fork l a rt \<Rightarrow> ERR_SUCCESS)"

text \<open>A chain of three nodes held by the caller's variable 0.\<close>

definition chain3 :: state where
  "chain3 =
     \<lparr>heap = [1 \<mapsto> \<lparr>parent = None, left = Some 2, right = None, data = Some 11\<rparr>,
              2 \<mapsto> \<lparr>parent = Some 1, left = Some 3, right = None, data = Some 12\<rparr>,
              3 \<mapsto> \<lparr>parent = Some 2, left = None, right = None, data = Some 13\<rparr>],
      vars = [0 \<mapsto> Some 1]\<rparr>"

text \<open>
  Sequences of calls of the public operations on one state. A call that does not return
  ends the run (\<open>None\<close>); the answer code of a call is dropped, its effect is kept.
\<close>

datatype 'm op =
    OpInit ptr
  | OpAppend ptr ptr 'm
  | OpDelete ptr
  | OpSubTreeDelete "ref option"

fun apply_op :: "'a::len word op \<Rightarrow> state \<Rightarrow> state option" where
  "apply_op (OpInit p) s =
     do { h \<leftarrow> Tree_NodeInit p (heap s); Some (s\<lparr>heap := h\<rparr>) }"
| "apply_op (OpAppend p q m) s =
     do { (e, h) \<leftarrow> Tree_NodeAppend p q m (heap s); Some (s\<lparr>heap := h\<rparr>) }"
| "apply_op (OpDelete p) s =
     do { (e, h) \<leftarrow> Tree_NodeDelete p (heap s); Some (s\<lparr>heap := h\<rparr>) }"
| "apply_op (OpSubTreeDelete r) s =
     do { (e, s') \<leftarrow> Tree_SubTreeDelete_Static r s; Some s' }"

fun run :: "'a::len word op list \<Rightarrow> state \<Rightarrow> state option" where
  "run [] s = Some s"
| "run (x # xs) s = do { s' \<leftarrow> apply_op x s; run xs s' }"

text \<open>
  No orphaned back-reference: a node whose parent field is present is held by a child
  slot of that parent.
\<close>

definition no_orphan :: "heap \<Rightarrow> bool" where
  "no_orphan h =
     (\<forall>a n p. h a = Some n \<and> parent n = Some p \<longrightarrow>
        (\<exists>P. h p = Some P \<and> (left P = Some a \<or> right P = Some a)))"

text \<open>Every node of the store is as \<^verbatim>\<open>Tree_NodeInit\<close> leaves it.\<close>

definition initialized :: "state \<Rightarrow> bool" where
  "initialized s = (\<forall>a n. heap s a = Some n \<longrightarrow> n = empty_node)"

text \<open>
  A node is attached when its parent field is present or some child slot holds it;
  \<open>attaches_unattached\<close> says that a call of append passes a new node that is not attached.
\<close>

definition attached :: "heap \<Rightarrow> addr \<Rightarrow> bool" where
  "attached h b =
     ((\<exists>n. h b = Some n \<and> parent n \<noteq> None) \<or>
      (\<exists>x n. h x = Some n \<and> (left n = Some b \<or> right n = Some b)))"

fun attaches_unattached :: "'a::len word op \<Rightarrow> state \<Rightarrow> bool" where
  "attaches_unattached (OpAppend p (Some b) m) s = (\<not> attached (heap s) b)"
| "attaches_unattached _ s = True"

text \<open>\<open>init_on_childless\<close> says that a call of init is given a node without children.\<close>

fun childless :: "heap \<Rightarrow> ptr \<Rightarrow> bool" where
  "childless h None = True"
| "childless h (Some a) =
     (case h a of None \<Rightarrow> True | Some n \<Rightarrow> left n = None \<and> right n = None)"

fun init_on_childless :: "'a::len word op \<Rightarrow> state \<Rightarrow> bool" where
  "init_on_childless (OpInit p) s = childless (heap s) p"
| "init_on_childless _ s = True"

text \<open>A condition on calls holds along a run when it holds at each call, in the state the call meets.\<close>

fun along_run :: "('a::len word op \<Rightarrow> state \<Rightarrow> bool) \<Rightarrow> 'a word op list \<Rightarrow> state \<Rightarrow> bool" where
  "along_run C [] s = True"
| "along_run C (x # xs) s =
     (C x s \<and> (case apply_op x s of None \<Rightarrow> True | Some s' \<Rightarrow> along_run C xs s'))"

text \<open>Three initialized nodes, and the state that re-initializing a parent leaves.\<close>

definition fresh_state :: state where
  "fresh_state = \<lparr>heap = [10 \<mapsto> empty_node, 20 \<mapsto> empty_node, 30 \<mapsto> empty_node],
                  vars = [0 \<mapsto> Some 10]\<rparr>"

definition orphan_state :: state where
  "orphan_state =
     \<lparr>heap = [10 \<mapsto> empty_node,
              20 \<mapsto> \<lparr>parent = Some 10, left = None, right = None, data = None\<rparr>,
              30 \<mapsto> empty_node],
      vars = [0 \<mapsto> Some 10]\<rparr>"

definition cleared_state :: state where
  "cleared_state = \<lparr>heap = [10 \<mapsto> empty_node, 20 \<mapsto> empty_node, 30 \<mapsto> empty_node],
                    vars = [0 \<mapsto> None]\<rparr>"

text \<open>
  What every returning call of subtree deletion establishes: child slots are only ever
  cleared (\<open>shrinks\<close>), the referenced cell ends absent, and \<open>no_orphan\<close> is kept.
\<close>

definition shrinks :: "heap \<Rightarrow> heap \<Rightarrow> bool" where
  "shrinks h h' =
     (\<forall>y. case h y of
            None \<Rightarrow> h' y = None
          | Some n \<Rightarrow>
              (\<exists>n'. h' y = Some n' \<and> (left n' = None \<or> left n' = left n) \<and>
                    (right n' = None \<or> right n' = right n)))"

definition subtree_post :: "ref option \<Rightarrow> state \<Rightarrow> state \<Rightarrow> bool" where
  "subtree_post r s s' =
     ((\<exists>rr. r = Some rr \<and> load_ref rr s' = Some None) \<and>
      shrinks (heap s) (heap s') \<and>
      (no_orphan (heap s) \<longrightarrow> no_orphan (heap s')))"

section \<open>Properties of append and delete\<close>

lemma mode_mask_iff:
  "(Mode AND NOT INSERT_MODE_MASK = 0) = (Mode = INSERT_POS_LEFT \<or> Mode = INSERT_POS_RIGHT)"
  for Mode :: "'a::len word"
proof -
  have "(Mode AND NOT 1 = 0) = (Mode = 1 \<or> Mode = 0)"
  proof
    assume h: "Mode AND NOT 1 = 0"
    have "Mode = Mode AND 1"
      using h by (metis and.right_neutral bit.conj_disj_distrib bit.disj_cancel_right
          or.right_neutral)
    then show "Mode = 1 \<or> Mode = 0"
      by (metis and_one_eq even_iff_mod_2_eq_zero odd_iff_mod_2_eq_one)
  next
    assume "Mode = 1 \<or> Mode = 0"
    then show "Mode AND NOT 1 = 0" by auto
  qed
  then show ?thesis
    by (simp add: INSERT_MODE_MASK_def INSERT_POS_LEFT_def INSERT_POS_RIGHT_def)
qed

lemma mode_left [simp]:
  "(INSERT_POS_LEFT :: 'a::len word) AND INSERT_MODE_MASK = INSERT_POS_LEFT"
  "(INSERT_POS_LEFT :: 'a::len word) \<noteq> INSERT_POS_RIGHT"
  by (simp_all add: INSERT_MODE_MASK_def INSERT_POS_LEFT_def INSERT_POS_RIGHT_def)

lemma mode_right [simp]:
  "(INSERT_POS_RIGHT :: 'a::len word) AND INSERT_MODE_MASK = INSERT_POS_RIGHT"
  "(INSERT_POS_RIGHT :: 'a::len word) \<noteq> INSERT_POS_LEFT"
  by (simp_all add: INSERT_MODE_MASK_def INSERT_POS_LEFT_def INSERT_POS_RIGHT_def)

lemma append_left:
  "Tree_NodeAppend (Some a) (Some b) (INSERT_POS_LEFT :: 'a::len word) h =
     do { n \<leftarrow> h a;
          if left n = None then do {
              h1 \<leftarrow> store_node a (\<lambda>m. m\<lparr>left := Some b\<rparr>) h;
              h2 \<leftarrow> store_node b (\<lambda>m. m\<lparr>parent := Some a\<rparr>) h1;
              Some (ERR_SUCCESS, h2)
            } else Some (ERR_NODE_EXIST, h) }"
  unfolding Tree_NodeAppend_def using mode_mask_iff[of "INSERT_POS_LEFT :: 'a word"] by simp

lemma append_right:
  "Tree_NodeAppend (Some a) (Some b) (INSERT_POS_RIGHT :: 'a::len word) h =
     do { n \<leftarrow> h a;
          if right n = None then do {
              h1 \<leftarrow> store_node a (\<lambda>m. m\<lparr>right := Some b\<rparr>) h;
              h2 \<leftarrow> store_node b (\<lambda>m. m\<lparr>parent := Some a\<rparr>) h1;
              Some (ERR_SUCCESS, h2)
            } else Some (ERR_NODE_EXIST, h) }"
  unfolding Tree_NodeAppend_def using mode_mask_iff[of "INSERT_POS_RIGHT :: 'a word"] by simp

lemma append_bad_mode:
  "Mode \<noteq> INSERT_POS_LEFT \<Longrightarrow> Mode \<noteq> INSERT_POS_RIGHT \<Longrightarrow>
   Tree_NodeAppend (Some a) (Some b) Mode h = Some (ERR_WRONG_PARAM, h)"
  unfolding Tree_NodeAppend_def using mode_mask_iff[of Mode] by simp

lemma reset_fields [simp]:
  "n\<lparr>parent := None, left := None, right := None, data := None\<rparr> = empty_node"
  by (cases n) (simp add: empty_node_def)

lemma delete_non_leaf:
  "h a = Some n \<Longrightarrow> left n \<noteq> None \<or> right n \<noteq> None \<Longrightarrow>
   Tree_NodeDelete (Some a) h = Some (ERR_FAILURE, h)"
  by (auto simp: Tree_NodeDelete_def)

lemma delete_leaf_root:
  "h a = Some n \<Longrightarrow> left n = None \<Longrightarrow> right n = None \<Longrightarrow> parent n = None \<Longrightarrow>
   Tree_NodeDelete (Some a) h = Some (ERR_SUCCESS, h(a \<mapsto> empty_node))"
  by (simp add: Tree_NodeDelete_def Tree_NodeInit_def store_node_def)

lemma delete_leaf_child:
  "h a = Some n \<Longrightarrow> left n = None \<Longrightarrow> right n = None \<Longrightarrow> parent n = Some p \<Longrightarrow>
   h p = Some P \<Longrightarrow>
   Tree_NodeDelete (Some a) h =
     Some (ERR_SUCCESS, (h(p \<mapsto> unlink_child a P))(a \<mapsto> empty_node))"
  by (auto simp: Tree_NodeDelete_def Tree_NodeInit_def store_node_def
        unlink_child_def fun_upd_twist)

text \<open>
  C7. \<^verbatim>\<open>Tree_NodeAppend\<close> on two non-null pointers answers \<^verbatim>\<open>ERR_WRONG_PARAM\<close> exactly
  when \<^verbatim>\<open>Mode\<close> is neither \<^verbatim>\<open>INSERT_POS_LEFT\<close> nor \<^verbatim>\<open>INSERT_POS_RIGHT\<close>, and in that
  case the store it returns is the store it was given: neither node is written.
\<close>

theorem Tree_NodeAppend_unrecognized_mode:
  "(Mode \<noteq> INSERT_POS_LEFT \<and> Mode \<noteq> INSERT_POS_RIGHT \<longrightarrow>
      Tree_NodeAppend (Some a) (Some b) Mode h = Some (ERR_WRONG_PARAM, h)) \<and>
   ((\<exists>h'. Tree_NodeAppend (Some a) (Some b) Mode h = Some (ERR_WRONG_PARAM, h')) =
      (Mode \<noteq> INSERT_POS_LEFT \<and> Mode \<noteq> INSERT_POS_RIGHT))"
proof -
  have l: "Tree_NodeAppend (Some a) (Some b) (INSERT_POS_LEFT :: 'a word) h
             \<noteq> Some (ERR_WRONG_PARAM, h')" for h'
    by (auto simp: append_left store_node_def split: bind_splits option.splits if_splits)
  have r: "Tree_NodeAppend (Some a) (Some b) (INSERT_POS_RIGHT :: 'a word) h
             \<noteq> Some (ERR_WRONG_PARAM, h')" for h'
    by (auto simp: append_right store_node_def split: bind_splits option.splits if_splits)
  show ?thesis
    using l r append_bad_mode[of Mode a b h] by auto
qed

theorem Tree_NodeAppend_unrecognized_mode_witness:
  "(2 :: 32 word) \<noteq> INSERT_POS_LEFT \<and> (2 :: 32 word) \<noteq> INSERT_POS_RIGHT \<and>
   Tree_NodeAppend (Some 0) (Some 1) (2 :: 32 word) fresh_pair
     = Some (ERR_WRONG_PARAM, fresh_pair)"
  using Tree_NodeAppend_unrecognized_mode[of "2 :: 32 word" 0 1 fresh_pair]
  by (simp add: INSERT_POS_LEFT_def INSERT_POS_RIGHT_def)

text \<open>
  C6. For two valid nodes and a recognized side whose slot in the target is occupied,
  \<^verbatim>\<open>Tree_NodeAppend\<close> answers \<^verbatim>\<open>ERR_NODE_EXIST\<close> and returns the store unchanged: the
  existing subtree, the target and the new node keep every field.
\<close>

theorem Tree_NodeAppend_slot_occupied:
  assumes "h a = Some A" and "h b = Some B"
    and "(Mode = INSERT_POS_LEFT \<and> left A \<noteq> None) \<or>
         (Mode = INSERT_POS_RIGHT \<and> right A \<noteq> None)"
  shows "Tree_NodeAppend (Some a) (Some b) Mode h = Some (ERR_NODE_EXIST, h)"
  using assms by (auto simp: append_left append_right)

theorem Tree_NodeAppend_slot_occupied_witness:
  "linked_pair 0 = Some \<lparr>parent = None, left = Some 1, right = None, data = Some 7\<rparr> \<and>
   linked_pair 2 = Some empty_node \<and>
   Tree_NodeAppend (Some 0) (Some 2) (INSERT_POS_LEFT :: 32 word) linked_pair
     = Some (ERR_NODE_EXIST, linked_pair)"
  using Tree_NodeAppend_slot_occupied[of linked_pair 0
      "\<lparr>parent = None, left = Some 1, right = None, data = Some 7\<rparr>" 2 empty_node
      "INSERT_POS_LEFT :: 32 word"]
  by (simp add: linked_pair_def)

text \<open>
  C3. For a valid node whose parent pointer, when present, is valid: \<^verbatim>\<open>Tree_NodeDelete\<close>
  answers \<^verbatim>\<open>ERR_FAILURE\<close> and leaves the store unchanged when a child slot is occupied;
  on a leaf it answers \<^verbatim>\<open>ERR_SUCCESS\<close>, the node becomes the empty node, the parent
  loses exactly the slots that held the node, and every other node is unchanged.
\<close>

theorem Tree_NodeDelete_leaf_only:
  assumes "h a = Some n" and "\<forall>p. parent n = Some p \<longrightarrow> h p \<noteq> None"
  shows "(left n \<noteq> None \<or> right n \<noteq> None \<longrightarrow>
            Tree_NodeDelete (Some a) h = Some (ERR_FAILURE, h)) \<and>
         (left n = None \<and> right n = None \<longrightarrow>
            (\<exists>h'. Tree_NodeDelete (Some a) h = Some (ERR_SUCCESS, h') \<and>
                  h' a = Some empty_node \<and>
                  (\<forall>p P. parent n = Some p \<and> p \<noteq> a \<and> h p = Some P \<longrightarrow>
                         h' p = Some (unlink_child a P)) \<and>
                  (\<forall>x. x \<noteq> a \<and> parent n \<noteq> Some x \<longrightarrow> h' x = h x)))"
proof (intro conjI impI)
  assume "left n \<noteq> None \<or> right n \<noteq> None"
  then show "Tree_NodeDelete (Some a) h = Some (ERR_FAILURE, h)"
    using assms(1) by (simp add: delete_non_leaf)
next
  assume leaf: "left n = None \<and> right n = None"
  show "\<exists>h'. Tree_NodeDelete (Some a) h = Some (ERR_SUCCESS, h') \<and>
             h' a = Some empty_node \<and>
             (\<forall>p P. parent n = Some p \<and> p \<noteq> a \<and> h p = Some P \<longrightarrow>
                    h' p = Some (unlink_child a P)) \<and>
             (\<forall>x. x \<noteq> a \<and> parent n \<noteq> Some x \<longrightarrow> h' x = h x)"
  proof (cases "parent n")
    case None
    then show ?thesis
      using delete_leaf_root[of h a n] assms(1) leaf by simp
  next
    case (Some p)
    then obtain P where "h p = Some P"
      using assms(2) by auto
    then show ?thesis
      using delete_leaf_child[of h a n p P] assms(1) leaf Some by auto
  qed
qed

theorem Tree_NodeDelete_leaf_only_witness:
  "linked_pair 1 = Some \<lparr>parent = Some 0, left = None, right = None, data = Some 8\<rparr> \<and>
   linked_pair 0 \<noteq> None \<and>
   Tree_NodeDelete (Some 0) linked_pair = Some (ERR_FAILURE, linked_pair) \<and>
   (\<exists>h'. Tree_NodeDelete (Some 1) linked_pair = Some (ERR_SUCCESS, h') \<and>
         h' 1 = Some empty_node \<and>
         h' 0 = Some \<lparr>parent = None, left = None, right = None, data = Some 7\<rparr> \<and>
         h' 2 = Some empty_node)"
  using Tree_NodeDelete_leaf_only[of linked_pair 1
      "\<lparr>parent = Some 0, left = None, right = None, data = Some 8\<rparr>"]
    Tree_NodeDelete_leaf_only[of linked_pair 0
      "\<lparr>parent = None, left = Some 1, right = None, data = Some 7\<rparr>"]
  by (auto simp: linked_pair_def unlink_child_def)

text \<open>
  C1. Let A be a valid node whose left slot is absent and B a different, freshly
  initialized node that A does not already hold in its right slot. Then
  \<^verbatim>\<open>Tree_NodeAppend(A, B, INSERT_POS_LEFT)\<close> succeeds, and \<^verbatim>\<open>Tree_NodeDelete(B)\<close> after it
  succeeds and yields the store from before the append: A has every field it had, with
  the left slot absent, and B is the empty node again.
\<close>

theorem append_delete_roundtrip:
  assumes "h a = Some A" and "left A = None" and "h b = Some empty_node"
    and "a \<noteq> b" and "right A \<noteq> Some b"
  shows "\<exists>h1. Tree_NodeAppend (Some a) (Some b) (INSERT_POS_LEFT :: 'a::len word) h
                = Some (ERR_SUCCESS, h1) \<and>
              Tree_NodeDelete (Some b) h1 = Some (ERR_SUCCESS, h) \<and>
              h a = Some A \<and> h b = Some empty_node"
proof -
  let ?A1 = "A\<lparr>left := Some b\<rparr>"
  let ?B1 = "empty_node\<lparr>parent := Some a\<rparr>"
  let ?h1 = "h(a \<mapsto> ?A1, b \<mapsto> ?B1)"
  have app: "Tree_NodeAppend (Some a) (Some b) (INSERT_POS_LEFT :: 'a word) h
               = Some (ERR_SUCCESS, ?h1)"
    using assms by (simp add: append_left store_node_def)
  have "Tree_NodeDelete (Some b) ?h1 =
          Some (ERR_SUCCESS, (?h1(a \<mapsto> unlink_child b ?A1))(b \<mapsto> empty_node))"
    by (rule delete_leaf_child[where n = ?B1]) (use assms in \<open>simp_all add: empty_node_def\<close>)
  moreover have "unlink_child b ?A1 = A"
    using assms by (simp add: unlink_child_def)
  moreover have "(?h1(a \<mapsto> A))(b \<mapsto> empty_node) = h"
    using assms by (auto simp: fun_eq_iff)
  ultimately have "Tree_NodeDelete (Some b) ?h1 = Some (ERR_SUCCESS, h)"
    by simp
  with app assms show ?thesis
    by blast
qed

theorem append_delete_roundtrip_witness:
  "fresh_pair 0 = Some (empty_node\<lparr>data := Some 7\<rparr>) \<and>
   left (empty_node\<lparr>data := Some 7\<rparr>) = None \<and>
   fresh_pair 1 = Some empty_node \<and> (0 :: addr) \<noteq> 1 \<and>
   right (empty_node\<lparr>data := Some 7\<rparr>) \<noteq> Some 1 \<and>
   (\<exists>h1. Tree_NodeAppend (Some 0) (Some 1) (INSERT_POS_LEFT :: 32 word) fresh_pair
            = Some (ERR_SUCCESS, h1) \<and>
         Tree_NodeDelete (Some 1) h1 = Some (ERR_SUCCESS, fresh_pair))"
  using append_delete_roundtrip[of fresh_pair 0 "empty_node\<lparr>data := Some 7\<rparr>" 1,
      where 'a = 32]
  by (simp add: fresh_pair_def empty_node_def)

section \<open>Properties of the traversals\<close>

lemma pre_guard:
  "pNode = None \<or> pFun = None \<Longrightarrow>
   Tree_TravesePreOrder h pNode pFun Ctx w = Some (ERR_INVALID_POINTER, w)"
  by (subst Tree_TravesePreOrder.simps) (auto split: option.splits)

lemma in_guard:
  "pNode = None \<or> pFun = None \<Longrightarrow>
   Tree_TraveseInOrder h pNode pFun Ctx w = Some (ERR_INVALID_POINTER, w)"
  by (subst Tree_TraveseInOrder.simps) (auto split: option.splits)

lemma post_guard:
  "pNode = None \<or> pFun = None \<Longrightarrow>
   Tree_TravesePostOrder h pNode pFun Ctx w = Some (ERR_INVALID_POINTER, w)"
  by (subst Tree_TravesePostOrder.simps) (auto split: option.splits)

lemma pre_node:
  "Tree_TravesePreOrder h (Some a) (Some f) Ctx w =
     do { n \<leftarrow> h a;
          (e1, w1) \<leftarrow> Tree_TravesePreOrder h (left n) (Some f) Ctx (snd (f Ctx (data n) w));
          (e2, w2) \<leftarrow> Tree_TravesePreOrder h (right n) (Some f) Ctx w1;
          Some (ERR_SUCCESS, w2) }"
  by (subst Tree_TravesePreOrder.simps) (simp add: split_def)

lemma in_node:
  "Tree_TraveseInOrder h (Some a) (Some f) Ctx w =
     do { n \<leftarrow> h a;
          (e1, w1) \<leftarrow> Tree_TraveseInOrder h (left n) (Some f) Ctx w;
          (e2, w2) \<leftarrow> Tree_TraveseInOrder h (right n) (Some f) Ctx (snd (f Ctx (data n) w1));
          Some (ERR_SUCCESS, w2) }"
  by (subst Tree_TraveseInOrder.simps) (simp add: split_def)

lemma post_node:
  "Tree_TravesePostOrder h (Some a) (Some f) Ctx w =
     do { n \<leftarrow> h a;
          (e1, w1) \<leftarrow> Tree_TravesePostOrder h (left n) (Some f) Ctx w;
          (e2, w2) \<leftarrow> Tree_TravesePostOrder h (right n) (Some f) Ctx w1;
          Some (ERR_SUCCESS, snd (f Ctx (data n) w2)) }"
  by (subst Tree_TravesePostOrder.simps) (simp add: split_def)

text \<open>
  C9. Each of the three traversals, called with an absent root or an absent callback,
  answers \<^verbatim>\<open>ERR_INVALID_POINTER\<close> and leaves the caller's world as it was, whatever the
  store holds: the callback is not invoked and no node is read.
\<close>

theorem traversal_absent_root_or_callback:
  assumes "pNode = None \<or> pFun = None"
  shows "Tree_TravesePreOrder h pNode pFun Ctx w = Some (ERR_INVALID_POINTER, w) \<and>
         Tree_TraveseInOrder h pNode pFun Ctx w = Some (ERR_INVALID_POINTER, w) \<and>
         Tree_TravesePostOrder h pNode pFun Ctx w = Some (ERR_INVALID_POINTER, w)"
  using assms by (simp add: pre_guard in_guard post_guard)

theorem traversal_absent_root_or_callback_witness:
  "((None :: ptr) = None \<or> Some record_call = None) \<and>
   Tree_TravesePreOrder four_nodes None (Some record_call) (Some 9) []
     = Some (ERR_INVALID_POINTER, []) \<and>
   Tree_TraveseInOrder four_nodes None (Some record_call) (Some 9) []
     = Some (ERR_INVALID_POINTER, []) \<and>
   Tree_TravesePostOrder four_nodes None (Some record_call) (Some 9) []
     = Some (ERR_INVALID_POINTER, []) \<and>
   (Some (100 :: addr) = None \<or> (None :: (ptr \<times> ptr) list TreeCallBackFun_t option) = None) \<and>
   Tree_TravesePreOrder four_nodes (Some 100) None (Some 9) ([] :: (ptr \<times> ptr) list)
     = Some (ERR_INVALID_POINTER, []) \<and>
   Tree_TraveseInOrder four_nodes (Some 100) None (Some 9) ([] :: (ptr \<times> ptr) list)
     = Some (ERR_INVALID_POINTER, []) \<and>
   Tree_TravesePostOrder four_nodes (Some 100) None (Some 9) ([] :: (ptr \<times> ptr) list)
     = Some (ERR_INVALID_POINTER, [])"
  using traversal_absent_root_or_callback[of None "Some record_call" four_nodes "Some 9" "[]"]
    traversal_absent_root_or_callback[of "Some 100" None four_nodes "Some 9"
      "[] :: (ptr \<times> ptr) list"]
  by simp

text \<open>
  C2. On the four-node tree root(1, left = 2(left = 4), right = 3), with a callback that
  logs its arguments, pre-order logs the payloads 1, 2, 4, 3, in-order 4, 2, 1, 3 and
  post-order 4, 2, 3, 1, each together with the context value the walker was given, and
  each walk answers \<^verbatim>\<open>ERR_SUCCESS\<close>.
\<close>

theorem traversal_orders_four_nodes:
  "Tree_TravesePreOrder four_nodes (Some 100) (Some record_call) Ctx w =
     Some (ERR_SUCCESS, w @ [(Ctx, Some 1), (Ctx, Some 2), (Ctx, Some 4), (Ctx, Some 3)]) \<and>
   Tree_TraveseInOrder four_nodes (Some 100) (Some record_call) Ctx w =
     Some (ERR_SUCCESS, w @ [(Ctx, Some 4), (Ctx, Some 2), (Ctx, Some 1), (Ctx, Some 3)]) \<and>
   Tree_TravesePostOrder four_nodes (Some 100) (Some record_call) Ctx w =
     Some (ERR_SUCCESS, w @ [(Ctx, Some 4), (Ctx, Some 2), (Ctx, Some 3), (Ctx, Some 1)])"
  by (simp add: pre_node in_node post_node pre_guard in_guard post_guard four_nodes_def
      record_call_def)

section \<open>Properties of the depth query\<close>

lemma depth_null: "Tree_DepthGet h None = Some 0"
  by (subst Tree_DepthGet.simps) simp

lemma depth_node:
  "Tree_DepthGet h (Some a) =
     do { n \<leftarrow> h a;
          LChildDeep \<leftarrow> Tree_DepthGet h (left n);
          RChildDeep \<leftarrow> Tree_DepthGet h (right n);
          Some (if LChildDeep \<ge> RChildDeep then LChildDeep + 1 else RChildDeep + 1) }"
  by (subst Tree_DepthGet.simps) simp

lemma depth_lower:
  "Tree_DepthGet h p = Some d \<Longrightarrow> (case p of None \<Rightarrow> d = 0 | Some a \<Rightarrow> 1 \<le> d)"
proof (induction rule: Tree_DepthGet.raw_induct[rotated 1, consumes 1, case_names step])
  case (step depth h p d)
  show ?case
  proof (cases p)
    case None
    with step(2) show ?thesis by simp
  next
    case (Some a)
    with step(2) obtain n l r where n: "h a = Some n" and l: "depth h (left n) = Some l"
      and r: "depth h (right n) = Some r" and d: "d = (if r \<le> l then l + 1 else r + 1)"
      by (auto split: bind_splits)
    have "0 \<le> l" using step(1)[OF l] by (cases "left n") auto
    moreover have "0 \<le> r" using step(1)[OF r] by (cases "right n") auto
    ultimately show ?thesis using d Some by auto
  qed
qed

lemma depth_links:
  "Tree_DepthGet h p = Some d \<Longrightarrow> same_links h h' \<Longrightarrow> Tree_DepthGet h' p = Some d"
proof (induction arbitrary: h' rule: Tree_DepthGet.raw_induct[rotated 1, consumes 1, case_names step])
  case (step depth h p d)
  show ?case
  proof (cases p)
    case None
    with step(2) show ?thesis by (simp add: depth_null)
  next
    case (Some a)
    with step(2) obtain n l r where n: "h a = Some n" and l: "depth h (left n) = Some l"
      and r: "depth h (right n) = Some r" and d: "d = (if r \<le> l then l + 1 else r + 1)"
      by (auto split: bind_splits)
    from step(3) have "map_option left (h a) = map_option left (h' a)"
      and "map_option right (h a) = map_option right (h' a)"
      by (simp_all add: same_links_def)
    with n obtain n' where n': "h' a = Some n'" "left n' = left n" "right n' = right n"
      by (cases "h' a") auto
    have "Tree_DepthGet h' (left n) = Some l" using step(1)[OF l step(3)] .
    moreover have "Tree_DepthGet h' (right n) = Some r" using step(1)[OF r step(3)] .
    ultimately show ?thesis using n' d Some by (simp add: depth_node)
  qed
qed

lemma same_links_sym: "same_links h h' \<Longrightarrow> same_links h' h"
  by (simp add: same_links_def)

lemma depth_structural: "same_links h h' \<Longrightarrow> Tree_DepthGet h' p = Tree_DepthGet h p"
proof (cases "Tree_DepthGet h p")
  case None
  assume sl: "same_links h h'"
  show ?thesis
  proof (cases "Tree_DepthGet h' p")
    case None2: None
    with None show ?thesis by simp
  next
    case (Some d)
    then have "Tree_DepthGet h p = Some d"
      by (rule depth_links[OF _ same_links_sym[OF sl]])
    with None show ?thesis by simp
  qed
next
  case (Some d)
  assume sl: "same_links h h'"
  have "Tree_DepthGet h' p = Some d"
    by (rule depth_links[OF Some sl])
  with Some show ?thesis by simp
qed

lemma depth_total: "tree_at h p t \<Longrightarrow> Tree_DepthGet h p = Some (int (height t))"
proof (induction t arbitrary: p)
  case Tip
  then show ?case by (simp add: depth_null)
next
  case (Fork l a r)
  then show ?case by (auto simp: depth_node split: option.splits)
qed

text \<open>
  C5. \<^verbatim>\<open>Tree_DepthGet\<close> answers 0 for an absent node; for a present node whose children
  have depths \<open>dl\<close> and \<open>dr\<close> it answers \<open>1 + max dl dr\<close>; whenever it answers for a present
  node the answer is at least 1; a childless node has depth 1; on a tree-shaped store it
  always answers, with the height of the tree. It returns no store (it writes nothing),
  and its answer is the same on any store with the same child pointers, so neither the
  payload nor the parent field is read.
\<close>

theorem Tree_DepthGet_structural:
  "Tree_DepthGet h None = Some 0 \<and>
   (\<forall>a n dl dr. h a = Some n \<and> Tree_DepthGet h (left n) = Some dl \<and>
       Tree_DepthGet h (right n) = Some dr \<longrightarrow>
       Tree_DepthGet h (Some a) = Some (1 + max dl dr)) \<and>
   (\<forall>a d. Tree_DepthGet h (Some a) = Some d \<longrightarrow> 1 \<le> d) \<and>
   (\<forall>a n. h a = Some n \<and> left n = None \<and> right n = None \<longrightarrow>
       Tree_DepthGet h (Some a) = Some 1) \<and>
   (\<forall>p t. tree_at h p t \<longrightarrow> Tree_DepthGet h p = Some (int (height t))) \<and>
   (\<forall>h' p. same_links h h' \<longrightarrow> Tree_DepthGet h' p = Tree_DepthGet h p)"
proof (intro conjI allI impI)
  show "Tree_DepthGet h None = Some 0" by (rule depth_null)
next
  fix a n dl dr
  assume "h a = Some n \<and> Tree_DepthGet h (left n) = Some dl \<and>
       Tree_DepthGet h (right n) = Some dr"
  then show "Tree_DepthGet h (Some a) = Some (1 + max dl dr)" by (simp add: depth_node max_def)
next
  fix a d assume "Tree_DepthGet h (Some a) = Some d"
  then show "1 \<le> d" using depth_lower by fastforce
next
  fix a n assume "h a = Some n \<and> left n = None \<and> right n = None"
  then show "Tree_DepthGet h (Some a) = Some 1" by (simp add: depth_node depth_null)
next
  fix p t assume "tree_at h p t"
  then show "Tree_DepthGet h p = Some (int (height t))" by (rule depth_total)
next
  fix h' p assume "same_links h h'"
  then show "Tree_DepthGet h' p = Tree_DepthGet h p" by (rule depth_structural)
qed

theorem Tree_DepthGet_structural_witness:
  "Tree_DepthGet four_nodes None = Some 0 \<and>
   four_nodes 400 = Some \<lparr>parent = Some 200, left = None, right = None, data = Some 4\<rparr> \<and>
   Tree_DepthGet four_nodes (Some 400) = Some 1 \<and>
   tree_at four_nodes (Some 100) (Fork (Fork (Fork Tip 400 Tip) 200 Tip) 100 (Fork Tip 300 Tip)) \<and>
   Tree_DepthGet four_nodes (Some 100) = Some 3 \<and>
   same_links four_nodes (\<lambda>a. map_option (\<lambda>n. n\<lparr>data := None, parent := None\<rparr>) (four_nodes a)) \<and>
   Tree_DepthGet (\<lambda>a. map_option (\<lambda>n. n\<lparr>data := None, parent := None\<rparr>) (four_nodes a)) (Some 100)
     = Some 3"
proof -
  let ?t = "Fork (Fork (Fork Tip 400 Tip) 200 Tip) 100 (Fork Tip 300 Tip)"
  let ?h' = "\<lambda>a. map_option (\<lambda>n. n\<lparr>data := None, parent := None\<rparr>) (four_nodes a)"
  let ?n = "\<lparr>parent = Some 200, left = None, right = None, data = Some 4\<rparr>"
  note T = Tree_DepthGet_structural[of four_nodes]
  have n: "four_nodes 400 = Some ?n"
    by (simp add: four_nodes_def)
  have t: "tree_at four_nodes (Some 100) ?t"
    by (simp add: four_nodes_def)
  have l: "same_links four_nodes ?h'"
    by (simp add: same_links_def option.map_comp comp_def)
  have c1: "Tree_DepthGet four_nodes None = Some 0"
    using T by (rule conjunct1)
  have "four_nodes 400 = Some ?n \<and> left ?n = None \<and> right ?n = None \<longrightarrow>
          Tree_DepthGet four_nodes (Some 400) = Some 1"
    using T by (elim conjE allE)
  then have c4: "Tree_DepthGet four_nodes (Some 400) = Some 1"
    using n by simp
  have "tree_at four_nodes (Some 100) ?t \<longrightarrow>
          Tree_DepthGet four_nodes (Some 100) = Some (int (height ?t))"
    using T by (elim conjE allE)
  then have c5: "Tree_DepthGet four_nodes (Some 100) = Some 3"
    using t by simp
  have "same_links four_nodes ?h' \<longrightarrow> Tree_DepthGet ?h' (Some 100) = Tree_DepthGet four_nodes (Some 100)"
    using T by (elim conjE allE)
  then have c6: "Tree_DepthGet ?h' (Some 100) = Some 3"
    using l c5 by simp
  show ?thesis
    using c1 n c4 t c5 l c6 by (intro conjI)
qed

section \<open>Properties of node destruction\<close>

lemma delete_null: "Tree_NodeDelete None h = None"
  by (simp add: Tree_NodeDelete_def)

lemma delete_failure_unchanged:
  assumes "Tree_NodeDelete p h = Some (e, h1)" and "e \<noteq> ERR_SUCCESS"
  shows "e = ERR_FAILURE \<and> h1 = h"
  using assms
  by (auto simp: Tree_NodeDelete_def split: option.splits if_splits bind_splits)

text \<open>
  C8, as the specification states it, fails: with the pointee absent, \<^verbatim>\<open>Tree_NodeDestory\<close>
  hands \<^verbatim>\<open>NULL\<close> to \<^verbatim>\<open>Tree_NodeDelete\<close>, whose \<^verbatim>\<open>ASSERT(NULL != pNode)\<close> never lets the
  call return, so no failure code comes back.
\<close>

theorem Tree_NodeDestory_absent_pointee_no_return:
  "Tree_NodeDestory (Some (Var 0)) absent_root = None"
  by (simp add: Tree_NodeDestory_def absent_root_def delete_null)

text \<open>
  C8, amended. On a reference whose pointee is absent \<^verbatim>\<open>Tree_NodeDestory\<close> does not
  return. Whenever the underlying \<^verbatim>\<open>Tree_NodeDelete\<close> answers a code other than
  \<^verbatim>\<open>ERR_SUCCESS\<close>, \<^verbatim>\<open>Tree_NodeDestory\<close> answers that code and the state is unchanged: the
  reference, every node and the set of allocated addresses are as before.
\<close>

theorem Tree_NodeDestory_failure:
  "(load_ref r s = Some None \<longrightarrow> Tree_NodeDestory (Some r) s = None) \<and>
   (\<forall>p e h1. load_ref r s = Some p \<and> Tree_NodeDelete p (heap s) = Some (e, h1) \<and>
       e \<noteq> ERR_SUCCESS \<longrightarrow>
       Tree_NodeDestory (Some r) s = Some (e, s))"
proof (intro conjI allI impI)
  assume "load_ref r s = Some None"
  then show "Tree_NodeDestory (Some r) s = None"
    by (simp add: Tree_NodeDestory_def delete_null)
next
  fix p e h1
  assume a: "load_ref r s = Some p \<and> Tree_NodeDelete p (heap s) = Some (e, h1) \<and>
       e \<noteq> ERR_SUCCESS"
  then have "h1 = heap s" using delete_failure_unchanged by blast
  with a show "Tree_NodeDestory (Some r) s = Some (e, s)"
    by (auto simp: Tree_NodeDestory_def)
qed

theorem Tree_NodeDestory_failure_witness:
  "load_ref (Var 0) absent_root = Some None \<and>
   Tree_NodeDestory (Some (Var 0)) absent_root = None \<and>
   load_ref (Var 0) parent_root = Some (Some 0) \<and>
   Tree_NodeDelete (Some 0) (heap parent_root) = Some (ERR_FAILURE, linked_pair) \<and>
   ERR_FAILURE \<noteq> ERR_SUCCESS \<and>
   Tree_NodeDestory (Some (Var 0)) parent_root = Some (ERR_FAILURE, parent_root)"
proof -
  have d: "Tree_NodeDelete (Some 0) (heap parent_root) = Some (ERR_FAILURE, linked_pair)"
    by (simp add: parent_root_def linked_pair_def Tree_NodeDelete_def)
  show ?thesis
    using Tree_NodeDestory_failure[of "Var 0" absent_root] Tree_NodeDestory_failure[of "Var 0" parent_root] d
    by (auto simp: absent_root_def parent_root_def)
qed

section \<open>Properties of subtree deletion\<close>

lemma subtree_null_ref: "Tree_SubTreeDelete_Static None s = None"
  by (subst Tree_SubTreeDelete_Static.simps) simp

lemma subtree_absent:
  "load_ref r s = Some None \<Longrightarrow> Tree_SubTreeDelete_Static (Some r) s = Some (ERR_FAILURE, s)"
  by (subst Tree_SubTreeDelete_Static.simps) simp

lemma subtree_present:
  "load_ref r s = Some (Some a) \<Longrightarrow>
   Tree_SubTreeDelete_Static (Some r) s =
     do { (e1, s1) \<leftarrow> Tree_SubTreeDelete_Static (Some (LeftOf a)) s;
          (e2, s2) \<leftarrow> Tree_SubTreeDelete_Static (Some (RightOf a)) s1;
          (e3, h3) \<leftarrow> Tree_NodeDelete (Some a) (heap s2);
          s4 \<leftarrow> store_ref r None (s2\<lparr>heap := h3\<rparr>);
          Some (ERR_SUCCESS, s4) }"
  by (subst Tree_SubTreeDelete_Static.simps) simp

lemma wf_root: "wf_tree h pp (Some x) t \<Longrightarrow> \<exists>l r. t = Fork l x r"
  by (cases t) auto

lemma wf_root_in: "wf_tree h pp (Some x) t \<Longrightarrow> x \<in> set (nodes t)"
  by (cases t) auto

lemma wf_cong:
  "(\<And>y. y \<in> set (nodes t) \<Longrightarrow> h' y = h y) \<Longrightarrow> wf_tree h' pp p t = wf_tree h pp p t"
proof (induction t arbitrary: pp p)
  case Tip
  show ?case by simp
next
  case (Fork l a r)
  have "h' a = h a" using Fork.prems by simp
  moreover have "wf_tree h' q x l = wf_tree h q x l" for q x
    using Fork.IH(1) Fork.prems by simp
  moreover have "wf_tree h' q x r = wf_tree h q x r" for q x
    using Fork.IH(2) Fork.prems by simp
  ultimately show ?case by (simp split: option.splits)
qed

lemma left_child_state:
  assumes "heap s a = Some A" and "wf_tree (heap s) (Some a) (left A) l"
    and "a \<notin> set (nodes l)" and "\<And>x. x \<in> set (nodes l) \<Longrightarrow> right A \<noteq> Some x"
  shows "state_after l (LeftOf a) (Some a) s =
           s\<lparr>heap := (emptied (nodes l) (heap s))(a \<mapsto> A\<lparr>left := None\<rparr>)\<rparr>"
proof (cases l)
  case Tip
  then have "left A = None" using assms(2) by simp
  then have "A\<lparr>left := None\<rparr> = A" by (cases A) simp
  then have "(emptied (nodes l) (heap s))(a \<mapsto> A\<lparr>left := None\<rparr>) = heap s"
    using assms(1) Tip by (auto simp: emptied_def fun_eq_iff)
  then show ?thesis using Tip by (simp add: state_after_def)
next
  case (Fork ll al lr)
  then have la: "left A = Some al" using assms(2) by simp
  have ra: "right A \<noteq> Some al" using assms(4) Fork by simp
  have "heap_after (nodes l) al (LeftOf a) (Some a) (heap s) =
          (emptied (nodes l) (heap s))(a \<mapsto> A\<lparr>left := None\<rparr>)"
    using assms(1,3) la ra
    by (auto simp: heap_after_def emptied_def fun_eq_iff clear_slot_def unlink_child_def
        option.map_ident)
  then show ?thesis using Fork by (simp add: state_after_def vars_after_def)
qed

lemma right_child_state:
  assumes "heap s a = Some A" and "wf_tree (heap s) (Some a) (right A) rt"
    and "a \<notin> set (nodes rt)" and "\<And>x. x \<in> set (nodes rt) \<Longrightarrow> left A \<noteq> Some x"
  shows "state_after rt (RightOf a) (Some a) s =
           s\<lparr>heap := (emptied (nodes rt) (heap s))(a \<mapsto> A\<lparr>right := None\<rparr>)\<rparr>"
proof (cases rt)
  case Tip
  then have "right A = None" using assms(2) by simp
  then have "A\<lparr>right := None\<rparr> = A" by (cases A) simp
  then have "(emptied (nodes rt) (heap s))(a \<mapsto> A\<lparr>right := None\<rparr>) = heap s"
    using assms(1) Tip by (auto simp: emptied_def fun_eq_iff)
  then show ?thesis using Tip by (simp add: state_after_def)
next
  case (Fork rl ar rr)
  then have la: "right A = Some ar" using assms(2) by simp
  have ra: "left A \<noteq> Some ar" using assms(4) Fork by simp
  have "heap_after (nodes rt) ar (RightOf a) (Some a) (heap s) =
          (emptied (nodes rt) (heap s))(a \<mapsto> A\<lparr>right := None\<rparr>)"
    using assms(1,3) la ra
    by (auto simp: heap_after_def emptied_def fun_eq_iff clear_slot_def unlink_child_def
        option.map_ident)
  then show ?thesis using Fork by (simp add: state_after_def vars_after_def)
qed


lemma store_ref_after:
  assumes "load_ref r s = Some p" and "\<And>q. ref_node r = Some q \<Longrightarrow> q \<notin> set ns"
  shows "store_ref r None
           (s\<lparr>heap := (\<lambda>y. if y \<in> set ns then Some empty_node
                           else map_option (\<lambda>n. if pp = Some y then unlink_child a n else n)
                                  (heap s y))\<rparr>) =
         Some (s\<lparr>heap := heap_after ns a r pp (heap s), vars := vars_after r (vars s)\<rparr>)"
proof (cases r)
  case (Var v)
  have "heap_after ns a (Var v) pp (heap s) =
          (\<lambda>y. if y \<in> set ns then Some empty_node
               else map_option (\<lambda>n. if pp = Some y then unlink_child a n else n) (heap s y))"
    by (auto simp: heap_after_def clear_slot_def fun_eq_iff)
  then show ?thesis
    using assms(1) Var by (simp add: vars_after_def)
next
  case (LeftOf q)
  then obtain Q where Q: "heap s q = Some Q"
    using assms(1) by auto
  have q: "q \<notin> set ns"
    using assms(2) LeftOf by simp
  have "heap_after ns a (LeftOf q) pp (heap s) =
          (\<lambda>y. if y \<in> set ns then Some empty_node
               else map_option (\<lambda>n. if pp = Some y then unlink_child a n else n) (heap s y))
          (q \<mapsto> (if pp = Some q then unlink_child a Q else Q)\<lparr>left := None\<rparr>)"
    using Q q by (auto simp: heap_after_def clear_slot_def fun_eq_iff)
  then show ?thesis
    using LeftOf Q q by (simp add: vars_after_def store_node_def)
next
  case (RightOf q)
  then obtain Q where Q: "heap s q = Some Q"
    using assms(1) by auto
  have q: "q \<notin> set ns"
    using assms(2) RightOf by simp
  have "heap_after ns a (RightOf q) pp (heap s) =
          (\<lambda>y. if y \<in> set ns then Some empty_node
               else map_option (\<lambda>n. if pp = Some y then unlink_child a n else n) (heap s y))
          (q \<mapsto> (if pp = Some q then unlink_child a Q else Q)\<lparr>right := None\<rparr>)"
    using Q q by (auto simp: heap_after_def clear_slot_def fun_eq_iff)
  then show ?thesis
    using RightOf Q q by (simp add: vars_after_def store_node_def)
qed

lemma delete_root_after:
  assumes "heap s a = Some A" and "parent A = pp"
    and "\<And>q. pp = Some q \<Longrightarrow> heap s q \<noteq> None \<and> q \<noteq> a \<and> q \<notin> set ns"
  shows "Tree_NodeDelete (Some a)
           ((emptied ns (heap s))(a \<mapsto> A\<lparr>left := None, right := None\<rparr>)) =
         Some (ERR_SUCCESS,
               (\<lambda>y. if y \<in> set (a # ns) then Some empty_node
                    else map_option (\<lambda>n. if pp = Some y then unlink_child a n else n)
                           (heap s y)))"
proof (cases pp)
  case None
  have "Tree_NodeDelete (Some a) ((emptied ns (heap s))(a \<mapsto> A\<lparr>left := None, right := None\<rparr>))
          = Some (ERR_SUCCESS,
              ((emptied ns (heap s))(a \<mapsto> A\<lparr>left := None, right := None\<rparr>))(a \<mapsto> empty_node))"
    by (rule delete_leaf_root[where n = "A\<lparr>left := None, right := None\<rparr>"])
      (use assms(2) None in simp_all)
  moreover have "((emptied ns (heap s))(a \<mapsto> A\<lparr>left := None, right := None\<rparr>))(a \<mapsto> empty_node)
          = (\<lambda>y. if y \<in> set (a # ns) then Some empty_node
                    else map_option (\<lambda>n. if pp = Some y then unlink_child a n else n)
                           (heap s y))"
    using None by (auto simp: emptied_def fun_eq_iff option.map_ident)
  ultimately show ?thesis by simp
next
  case (Some q)
  then obtain Q where Q: "heap s q = Some Q" and qa: "q \<noteq> a" and qn: "q \<notin> set ns"
    using assms(3) by auto
  let ?h2 = "(emptied ns (heap s))(a \<mapsto> A\<lparr>left := None, right := None\<rparr>)"
  have "Tree_NodeDelete (Some a) ?h2
          = Some (ERR_SUCCESS, (?h2(q \<mapsto> unlink_child a Q))(a \<mapsto> empty_node))"
    by (rule delete_leaf_child[where n = "A\<lparr>left := None, right := None\<rparr>"])
      (use assms(2) Some Q qa qn in \<open>simp_all add: emptied_def\<close>)
  moreover have "(?h2(q \<mapsto> unlink_child a Q))(a \<mapsto> empty_node)
          = (\<lambda>y. if y \<in> set (a # ns) then Some empty_node
                    else map_option (\<lambda>n. if pp = Some y then unlink_child a n else n)
                           (heap s y))"
    using Some Q qa qn by (auto simp: emptied_def fun_eq_iff option.map_ident)
  ultimately show ?thesis by simp
qed

lemma subtree_delete_wf:
  assumes "wf_tree (heap s) pp p t" and "distinct (nodes t)" and "load_ref r s = Some p"
    and "\<And>q. ref_node r = Some q \<Longrightarrow> q \<notin> set (nodes t)"
    and "\<And>q. pp = Some q \<Longrightarrow> heap s q \<noteq> None \<and> q \<notin> set (nodes t)"
  shows "Tree_SubTreeDelete_Static (Some r) s = Some (code_after t, state_after t r pp s)"
  using assms
proof (induction t arbitrary: s pp p r)
  case Tip
  then have "p = None" by simp
  with Tip show ?case
    by (simp add: subtree_absent code_after_def state_after_def)
next
  case (Fork l a rt)
  from Fork.prems(1) obtain A where p: "p = Some a" and A: "heap s a = Some A"
    and par: "parent A = pp"
    and wl: "wf_tree (heap s) (Some a) (left A) l"
    and wr: "wf_tree (heap s) (Some a) (right A) rt"
    by (auto split: option.splits)
  from Fork.prems(2) have dl: "distinct (nodes l)" and dr: "distinct (nodes rt)"
    and al: "a \<notin> set (nodes l)" and ar: "a \<notin> set (nodes rt)"
    and disj: "set (nodes l) \<inter> set (nodes rt) = {}"
    by auto
  have rl: "right A \<noteq> Some x" if "x \<in> set (nodes l)" for x
  proof
    assume "right A = Some x"
    with wr have "x \<in> set (nodes rt)" by (simp add: wf_root_in)
    with that disj show False by auto
  qed
  have lr: "left A \<noteq> Some x" if "x \<in> set (nodes rt)" for x
  proof
    assume "left A = Some x"
    with wl have "x \<in> set (nodes l)" by (simp add: wf_root_in)
    with that disj show False by auto
  qed
  let ?A1 = "A\<lparr>left := None\<rparr>"
  let ?s1 = "s\<lparr>heap := (emptied (nodes l) (heap s))(a \<mapsto> ?A1)\<rparr>"
  have "Tree_SubTreeDelete_Static (Some (LeftOf a)) s =
          Some (code_after l, state_after l (LeftOf a) (Some a) s)"
    by (rule Fork.IH(1)[OF wl dl]) (use A al in auto)
  moreover have "state_after l (LeftOf a) (Some a) s = ?s1"
    by (rule left_child_state[OF A wl al rl])
  ultimately have c1: "Tree_SubTreeDelete_Static (Some (LeftOf a)) s = Some (code_after l, ?s1)"
    by simp
  have A1: "heap ?s1 a = Some ?A1" by simp
  have wr1: "wf_tree (heap ?s1) (Some a) (right ?A1) rt"
  proof -
    have "wf_tree (heap ?s1) (Some a) (right A) rt = wf_tree (heap s) (Some a) (right A) rt"
      by (rule wf_cong) (use ar disj in \<open>auto simp: emptied_def\<close>)
    with wr show ?thesis by simp
  qed
  let ?h2 = "(emptied (nodes l @ nodes rt) (heap s))(a \<mapsto> A\<lparr>left := None, right := None\<rparr>)"
  have "Tree_SubTreeDelete_Static (Some (RightOf a)) ?s1 =
          Some (code_after rt, state_after rt (RightOf a) (Some a) ?s1)"
    by (rule Fork.IH(2)[OF wr1 dr]) (use ar in auto)
  moreover have "state_after rt (RightOf a) (Some a) ?s1 =
          ?s1\<lparr>heap := (emptied (nodes rt) (heap ?s1))(a \<mapsto> ?A1\<lparr>right := None\<rparr>)\<rparr>"
    by (rule right_child_state[OF A1 wr1 ar]) (use lr in simp)
  moreover have "(emptied (nodes rt) (heap ?s1))(a \<mapsto> ?A1\<lparr>right := None\<rparr>) = ?h2"
    by (auto simp: emptied_def fun_eq_iff)
  ultimately have c2: "Tree_SubTreeDelete_Static (Some (RightOf a)) ?s1 =
          Some (code_after rt, s\<lparr>heap := ?h2\<rparr>)"
    by simp
  let ?h3 = "\<lambda>y. if y \<in> set (a # nodes l @ nodes rt) then Some empty_node
                 else map_option (\<lambda>n. if pp = Some y then unlink_child a n else n) (heap s y)"
  have c3: "Tree_NodeDelete (Some a) ?h2 = Some (ERR_SUCCESS, ?h3)"
    by (rule delete_root_after[OF A par]) (use Fork.prems(5) in auto)
  have c4: "store_ref r None (s\<lparr>heap := ?h3\<rparr>) =
              Some (s\<lparr>heap := heap_after (a # nodes l @ nodes rt) a r pp (heap s),
                      vars := vars_after r (vars s)\<rparr>)"
    by (rule store_ref_after[OF Fork.prems(3)]) (use Fork.prems(4) in auto)
  have "load_ref r s = Some (Some a)"
    using Fork.prems(3) p by simp
  then show ?case
    using c1 c2 c3 c4 by (simp add: subtree_present code_after_def state_after_def)
qed


lemma wf_child_in:
  assumes "wf_tree h pp p t" and "distinct (nodes t)" and "q \<in> set (nodes t)"
    and "h q = Some Q" and "left Q = Some c \<or> right Q = Some c"
  shows "c \<in> set (nodes t) \<and> p \<noteq> Some c"
  using assms
proof (induction t arbitrary: pp p)
  case Tip
  then show ?case by simp
next
  case (Fork l a r)
  from Fork.prems(1) obtain A where p: "p = Some a" and A: "h a = Some A"
    and wl: "wf_tree h (Some a) (left A) l" and wr: "wf_tree h (Some a) (right A) r"
    by (auto split: option.splits)
  from Fork.prems(2) have dl: "distinct (nodes l)" and dr: "distinct (nodes r)"
    and al: "a \<notin> set (nodes l)" and ar: "a \<notin> set (nodes r)"
    by auto
  consider "q = a" | "q \<in> set (nodes l)" | "q \<in> set (nodes r)"
    using Fork.prems(3) by auto
  then have "c \<in> set (nodes l) \<or> c \<in> set (nodes r)"
  proof cases
    case 1
    then have "left A = Some c \<or> right A = Some c"
      using Fork.prems(4,5) A by simp
    then show ?thesis
      using wl wr wf_root_in by metis
  next
    case 2
    then show ?thesis
      using Fork.IH(1)[OF wl dl 2 Fork.prems(4,5)] by simp
  next
    case 3
    then show ?thesis
      using Fork.IH(2)[OF wr dr 3 Fork.prems(4,5)] by simp
  qed
  then show ?case
    using p al ar by auto
qed

lemma ref_outside:
  assumes "wf_tree (heap s) pp (Some a) t" and "distinct (nodes t)"
    and "load_ref r s = Some (Some a)" and "ref_node r = Some q"
  shows "q \<notin> set (nodes t)"
proof
  assume q: "q \<in> set (nodes t)"
  from assms(3,4) obtain Q where "heap s q = Some Q" and "left Q = Some a \<or> right Q = Some a"
    by (cases r) auto
  then have "Some a \<noteq> Some a"
    using wf_child_in[OF assms(1,2) q] by blast
  then show False by simp
qed

text \<open>
  C4. Let the reference \<open>r\<close> hold the root \<open>a\<close> of a well-formed subtree \<open>t\<close> in which no
  node occurs twice, and let the root's parent pointer, when present, be a valid node
  outside the subtree. Then \<^verbatim>\<open>Tree_SubTreeDelete_Static\<close> returns \<^verbatim>\<open>ERR_SUCCESS\<close>, every
  node of the subtree is the empty node afterwards, the reference is absent, and every
  node that is neither in the subtree, nor the root's parent, nor the holder of the
  reference is unchanged.
\<close>

theorem Tree_SubTreeDelete_Static_removes_subtree:
  assumes "wf_tree (heap s) pp (Some a) t" and "distinct (nodes t)"
    and "load_ref r s = Some (Some a)"
    and "\<forall>q. pp = Some q \<longrightarrow> heap s q \<noteq> None \<and> q \<notin> set (nodes t)"
  shows "\<exists>s'. Tree_SubTreeDelete_Static (Some r) s = Some (ERR_SUCCESS, s') \<and>
              (\<forall>x\<in>set (nodes t). heap s' x = Some empty_node) \<and>
              load_ref r s' = Some None \<and>
              (\<forall>y. y \<notin> set (nodes t) \<and> pp \<noteq> Some y \<and> ref_node r \<noteq> Some y \<longrightarrow>
                   heap s' y = heap s y)"
proof -
  obtain l rt where t: "t = Fork l a rt"
    using assms(1) wf_root by blast
  have out: "q \<notin> set (nodes t)" if "ref_node r = Some q" for q
    using ref_outside[OF assms(1,2,3) that] .
  have run: "Tree_SubTreeDelete_Static (Some r) s = Some (code_after t, state_after t r pp s)"
    by (rule subtree_delete_wf[OF assms(1,2,3)]) (use out assms(4) in auto)
  let ?s' = "s\<lparr>heap := heap_after (nodes t) a r pp (heap s), vars := vars_after r (vars s)\<rparr>"
  have s': "state_after t r pp s = ?s'" and c: "code_after t = ERR_SUCCESS"
    using t by (simp_all add: state_after_def code_after_def)
  have "\<forall>x\<in>set (nodes t). heap ?s' x = Some empty_node"
    by (simp add: heap_after_def)
  moreover have "load_ref r ?s' = Some None"
  proof (cases r)
    case (Var v)
    then show ?thesis by (simp add: vars_after_def)
  next
    case (LeftOf q)
    then obtain Q where "heap s q = Some Q" using assms(3) by auto
    then show ?thesis
      using LeftOf out[of q] by (simp add: heap_after_def clear_slot_def)
  next
    case (RightOf q)
    then obtain Q where "heap s q = Some Q" using assms(3) by auto
    then show ?thesis
      using RightOf out[of q] by (simp add: heap_after_def clear_slot_def)
  qed
  moreover have "\<forall>y. y \<notin> set (nodes t) \<and> pp \<noteq> Some y \<and> ref_node r \<noteq> Some y \<longrightarrow>
                   heap ?s' y = heap s y"
    by (cases r) (auto simp: heap_after_def clear_slot_def option.map_ident)
  ultimately show ?thesis
    using run s' c by auto
qed

theorem Tree_SubTreeDelete_Static_removes_subtree_witness:
  "wf_tree (heap chain3) None (Some 1) (Fork (Fork (Fork Tip 3 Tip) 2 Tip) 1 Tip) \<and>
   distinct (nodes (Fork (Fork (Fork Tip 3 Tip) 2 Tip) 1 Tip)) \<and>
   load_ref (Var 0) chain3 = Some (Some 1) \<and>
   (\<exists>s'. Tree_SubTreeDelete_Static (Some (Var 0)) chain3 = Some (ERR_SUCCESS, s') \<and>
         heap s' 1 = Some empty_node \<and> heap s' 2 = Some empty_node \<and>
         heap s' 3 = Some empty_node \<and> load_ref (Var 0) s' = Some None) \<and>
   wf_tree (heap chain3) (Some 1) (Some 2) (Fork (Fork Tip 3 Tip) 2 Tip) \<and>
   distinct (nodes (Fork (Fork Tip 3 Tip) 2 Tip)) \<and>
   load_ref (LeftOf 1) chain3 = Some (Some 2) \<and>
   heap chain3 1 \<noteq> None \<and> 1 \<notin> set (nodes (Fork (Fork Tip 3 Tip) 2 Tip)) \<and>
   (\<exists>s'. Tree_SubTreeDelete_Static (Some (LeftOf 1)) chain3 = Some (ERR_SUCCESS, s') \<and>
         heap s' 2 = Some empty_node \<and> heap s' 3 = Some empty_node \<and>
         load_ref (LeftOf 1) s' = Some None)"
proof -
  let ?t = "Fork (Fork (Fork Tip 3 Tip) 2 Tip) 1 Tip"
  let ?u = "Fork (Fork Tip 3 Tip) 2 Tip"
  have w: "wf_tree (heap chain3) None (Some 1) ?t"
    by (simp add: chain3_def)
  have d: "distinct (nodes ?t)"
    by simp
  have l: "load_ref (Var 0) chain3 = Some (Some 1)"
    by (simp add: chain3_def)
  have "\<exists>s'. Tree_SubTreeDelete_Static (Some (Var 0)) chain3 = Some (ERR_SUCCESS, s') \<and>
              (\<forall>x\<in>set (nodes ?t). heap s' x = Some empty_node) \<and>
              load_ref (Var 0) s' = Some None \<and>
              (\<forall>y. y \<notin> set (nodes ?t) \<and> None \<noteq> Some y \<and> ref_node (Var 0) \<noteq> Some y \<longrightarrow>
                   heap s' y = heap chain3 y)"
    by (rule Tree_SubTreeDelete_Static_removes_subtree[OF w d l]) simp
  then have whole: "\<exists>s'. Tree_SubTreeDelete_Static (Some (Var 0)) chain3 = Some (ERR_SUCCESS, s') \<and>
         heap s' 1 = Some empty_node \<and> heap s' 2 = Some empty_node \<and>
         heap s' 3 = Some empty_node \<and> load_ref (Var 0) s' = Some None"
    by auto
  have w2: "wf_tree (heap chain3) (Some 1) (Some 2) ?u"
    by (simp add: chain3_def)
  have d2: "distinct (nodes ?u)"
    by simp
  have l2: "load_ref (LeftOf 1) chain3 = Some (Some 2)"
    by (simp add: chain3_def)
  have p2: "heap chain3 1 \<noteq> None \<and> 1 \<notin> set (nodes ?u)"
    by (simp add: chain3_def)
  have "\<exists>s'. Tree_SubTreeDelete_Static (Some (LeftOf 1)) chain3 = Some (ERR_SUCCESS, s') \<and>
              (\<forall>x\<in>set (nodes ?u). heap s' x = Some empty_node) \<and>
              load_ref (LeftOf 1) s' = Some None \<and>
              (\<forall>y. y \<notin> set (nodes ?u) \<and> Some 1 \<noteq> Some y \<and> ref_node (LeftOf 1) \<noteq> Some y \<longrightarrow>
                   heap s' y = heap chain3 y)"
    by (rule Tree_SubTreeDelete_Static_removes_subtree[OF w2 d2 l2]) (use p2 in simp)
  then have part: "\<exists>s'. Tree_SubTreeDelete_Static (Some (LeftOf 1)) chain3 = Some (ERR_SUCCESS, s') \<and>
         heap s' 2 = Some empty_node \<and> heap s' 3 = Some empty_node \<and>
         load_ref (LeftOf 1) s' = Some None"
    by auto
  show ?thesis
    using w d l whole w2 d2 l2 p2 part by (intro conjI) simp_all
qed

section \<open>The back-reference invariant along runs\<close>

lemma bind_run_nil [simp]: "x \<bind> run [] = x"
  by (cases x) simp_all

lemma no_orphanI:
  "(\<And>a n p. h a = Some n \<Longrightarrow> parent n = Some p \<Longrightarrow>
      \<exists>P. h p = Some P \<and> (left P = Some a \<or> right P = Some a)) \<Longrightarrow> no_orphan h"
  by (auto simp: no_orphan_def)

lemma no_orphanD:
  "no_orphan h \<Longrightarrow> h a = Some n \<Longrightarrow> parent n = Some p \<Longrightarrow>
     \<exists>P. h p = Some P \<and> (left P = Some a \<or> right P = Some a)"
  by (auto simp: no_orphan_def)

lemma reset_leaf_preserves:
  assumes inv: "no_orphan h" and a: "h a = Some n" and leaf: "left n = None" "right n = None"
  shows "no_orphan (h(a \<mapsto> empty_node))"
proof (rule no_orphanI)
  fix x nx p
  assume x: "(h(a \<mapsto> empty_node)) x = Some nx" and px: "parent nx = Some p"
  have xa: "x \<noteq> a"
    using x px by (auto simp: empty_node_def)
  then have hx: "h x = Some nx"
    using x by simp
  from no_orphanD[OF inv hx px] obtain P where P: "h p = Some P"
    and s: "left P = Some x \<or> right P = Some x"
    by blast
  have "p \<noteq> a"
    using P s a leaf by auto
  then show "\<exists>P. (h(a \<mapsto> empty_node)) p = Some P \<and> (left P = Some x \<or> right P = Some x)"
    using P s by simp
qed

lemma init_preserves:
  assumes "no_orphan h" and "childless h p" and "Tree_NodeInit p h = Some h'"
  shows "no_orphan h'"
proof -
  from assms(3) obtain a n where p: "p = Some a" and a: "h a = Some n"
    and h': "h' = h(a \<mapsto> empty_node)"
    by (auto simp: Tree_NodeInit_def store_node_def split: option.splits)
  show ?thesis
    unfolding h' by (rule reset_leaf_preserves[OF assms(1) a]) (use assms(2) p a in auto)
qed

lemma attach_preserves:
  assumes inv: "no_orphan h" and a: "h a = Some A" and b: "h b \<noteq> None"
    and A': "parent A' = parent A"
      "left A' = left A \<or> left A = None \<and> left A' = Some b"
      "right A' = right A \<or> right A = None \<and> right A' = Some b"
      "left A' = Some b \<or> right A' = Some b"
    and h1: "h1 = h(a \<mapsto> A')" and B1: "h1 b = Some B1"
    and h2: "h2 = h1(b \<mapsto> B1\<lparr>parent := Some a\<rparr>)"
  shows "no_orphan h2"
proof (rule no_orphanI)
  fix x nx p
  assume x: "h2 x = Some nx" and px: "parent nx = Some p"
  have slots: "\<exists>Q'. h2 q = Some Q' \<and> (left Q' = Some y \<or> right Q' = Some y)"
    if "h q = Some Q" and "left Q = Some y \<or> right Q = Some y" for q Q y
    using that a A' h1 B1 h2 by (cases "q = a"; cases "q = b") auto
  show "\<exists>P. h2 p = Some P \<and> (left P = Some x \<or> right P = Some x)"
  proof (cases "x = b")
    case True
    then have "p = a" using x px h2 by auto
    moreover have "\<exists>Q'. h2 a = Some Q' \<and> (left Q' = Some b \<or> right Q' = Some b)"
      using A'(4) h1 h2 B1 by (cases "a = b") auto
    ultimately show ?thesis using True by simp
  next
    case False
    then obtain n0 where "h x = Some n0" and "parent n0 = Some p"
      using x px h2 h1 a A'(1) by (cases "x = a") auto
    from no_orphanD[OF inv this] obtain P where "h p = Some P"
      and "left P = Some x \<or> right P = Some x"
      by blast
    then show ?thesis by (rule slots)
  qed
qed

lemma attach_left_preserves:
  assumes "no_orphan h" and "h a = Some A" and "left A = None"
    and "store_node a (\<lambda>m. m\<lparr>left := Some b\<rparr>) h = Some h1"
    and "store_node b (\<lambda>m. m\<lparr>parent := Some a\<rparr>) h1 = Some h2"
  shows "no_orphan h2"
proof -
  from assms(2,4) have h1: "h1 = h(a \<mapsto> A\<lparr>left := Some b\<rparr>)"
    by (simp add: store_node_def)
  from assms(5) obtain B1 where B1: "h1 b = Some B1" and h2: "h2 = h1(b \<mapsto> B1\<lparr>parent := Some a\<rparr>)"
    by (auto simp: store_node_def split: option.splits)
  have b: "h b \<noteq> None"
    using h1 B1 assms(2) by (auto split: if_splits)
  show ?thesis
    by (rule attach_preserves[OF assms(1,2) b _ _ _ _ h1 B1 h2]) (use assms(3) in auto)
qed

lemma attach_right_preserves:
  assumes "no_orphan h" and "h a = Some A" and "right A = None"
    and "store_node a (\<lambda>m. m\<lparr>right := Some b\<rparr>) h = Some h1"
    and "store_node b (\<lambda>m. m\<lparr>parent := Some a\<rparr>) h1 = Some h2"
  shows "no_orphan h2"
proof -
  from assms(2,4) have h1: "h1 = h(a \<mapsto> A\<lparr>right := Some b\<rparr>)"
    by (simp add: store_node_def)
  from assms(5) obtain B1 where B1: "h1 b = Some B1" and h2: "h2 = h1(b \<mapsto> B1\<lparr>parent := Some a\<rparr>)"
    by (auto simp: store_node_def split: option.splits)
  have b: "h b \<noteq> None"
    using h1 B1 assms(2) by (auto split: if_splits)
  show ?thesis
    by (rule attach_preserves[OF assms(1,2) b _ _ _ _ h1 B1 h2]) (use assms(3) in auto)
qed

lemma append_preserves:
  assumes "no_orphan h" and "Tree_NodeAppend p q m h = Some (e, h')"
  shows "no_orphan h'"
  using assms
  by (auto simp: Tree_NodeAppend_def split: option.splits if_splits bind_splits
      intro: attach_left_preserves attach_right_preserves)

lemma shrinks_refl: "shrinks h h"
  by (auto simp: shrinks_def split: option.splits)

lemma shrinks_trans: "shrinks h1 h2 \<Longrightarrow> shrinks h2 h3 \<Longrightarrow> shrinks h1 h3"
  unfolding shrinks_def
proof (intro allI)
  fix y
  assume a: "\<forall>y. case h1 y of None \<Rightarrow> h2 y = None
       | Some n \<Rightarrow> \<exists>n'. h2 y = Some n' \<and> (left n' = None \<or> left n' = left n) \<and>
                          (right n' = None \<or> right n' = right n)"
    and b: "\<forall>y. case h2 y of None \<Rightarrow> h3 y = None
       | Some n \<Rightarrow> \<exists>n'. h3 y = Some n' \<and> (left n' = None \<or> left n' = left n) \<and>
                          (right n' = None \<or> right n' = right n)"
  from a[rule_format, of y] b[rule_format, of y]
  show "case h1 y of None \<Rightarrow> h3 y = None
       | Some n \<Rightarrow> \<exists>n'. h3 y = Some n' \<and> (left n' = None \<or> left n' = left n) \<and>
                          (right n' = None \<or> right n' = right n)"
    by (cases "h1 y"; cases "h2 y") auto
qed

lemma shrinksD:
  "shrinks h h' \<Longrightarrow> h y = Some n \<Longrightarrow>
     \<exists>n'. h' y = Some n' \<and> (left n' = None \<or> left n' = left n) \<and>
           (right n' = None \<or> right n' = right n)"
  unfolding shrinks_def by (drule spec[where x = y]) simp

lemma delete_cases:
  assumes "Tree_NodeDelete p h = Some (e, h')"
  obtains (non_leaf) a n where "p = Some a" "h a = Some n" "left n \<noteq> None \<or> right n \<noteq> None"
      "e = ERR_FAILURE" "h' = h"
    | (root) a n where "p = Some a" "h a = Some n" "left n = None" "right n = None"
      "parent n = None" "e = ERR_SUCCESS" "h' = h(a \<mapsto> empty_node)"
    | (child) a n q Q where "p = Some a" "h a = Some n" "left n = None" "right n = None"
      "parent n = Some q" "h q = Some Q" "e = ERR_SUCCESS"
      "h' = (h(q \<mapsto> unlink_child a Q))(a \<mapsto> empty_node)"
proof -
  from assms obtain a n where p: "p = Some a" and a: "h a = Some n"
    by (auto simp: Tree_NodeDelete_def split: option.splits)
  show thesis
  proof (cases "left n \<noteq> None \<or> right n \<noteq> None")
    case True
    have "Tree_NodeDelete (Some a) h = Some (ERR_FAILURE, h)"
      by (rule delete_non_leaf[of h a n, OF a True])
    with assms p have "e = ERR_FAILURE" and "h' = h"
      by simp_all
    then show ?thesis
      by (rule non_leaf[OF p a True])
  next
    case False
    then have leaf: "left n = None" "right n = None"
      by auto
    show ?thesis
    proof (cases "parent n")
      case None
      have "Tree_NodeDelete (Some a) h = Some (ERR_SUCCESS, h(a \<mapsto> empty_node))"
        by (rule delete_leaf_root[of h a n, OF a leaf None])
      with assms p have "e = ERR_SUCCESS" and "h' = h(a \<mapsto> empty_node)"
        by simp_all
      then show ?thesis
        by (rule root[OF p a leaf None])
    next
      case (Some q)
      have "h q \<noteq> None"
      proof
        assume "h q = None"
        then have "Tree_NodeDelete (Some a) h = None"
          using a leaf Some by (simp add: Tree_NodeDelete_def)
        with assms p show False by simp
      qed
      then obtain Q where Q: "h q = Some Q"
        by blast
      have "Tree_NodeDelete (Some a) h =
              Some (ERR_SUCCESS, (h(q \<mapsto> unlink_child a Q))(a \<mapsto> empty_node))"
        by (rule delete_leaf_child[of h a n q Q, OF a leaf Some Q])
      with assms p have "e = ERR_SUCCESS"
        and "h' = (h(q \<mapsto> unlink_child a Q))(a \<mapsto> empty_node)"
        by simp_all
      then show ?thesis
        by (rule child[OF p a leaf Some Q])
    qed
  qed
qed

lemma delete_preserves:
  assumes inv: "no_orphan h" and d: "Tree_NodeDelete p h = Some (e, h')"
  shows "no_orphan h'"
  using d
proof (cases rule: delete_cases)
  case (non_leaf a n)
  then show ?thesis using inv by simp
next
  case (root a n)
  then show ?thesis using reset_leaf_preserves[OF inv] by simp
next
  case (child a n q Q)
  show ?thesis
  proof (rule no_orphanI)
    fix x nx r
    assume x: "h' x = Some nx" and px: "parent nx = Some r"
    have xa: "x \<noteq> a"
      using x px child(8) by (auto simp: empty_node_def)
    then obtain n0 where hx: "h x = Some n0" and p0: "parent n0 = Some r"
      using x px child(6,8) by (cases "x = q") (auto simp: unlink_child_def)
    from no_orphanD[OF inv hx p0] obtain P where P: "h r = Some P"
      and s: "left P = Some x \<or> right P = Some x"
      by blast
    have ra: "r \<noteq> a"
      using P s child(2,3,4) by auto
    show "\<exists>P. h' r = Some P \<and> (left P = Some x \<or> right P = Some x)"
      using P s ra xa child(6,8) by (cases "r = q") (auto simp: unlink_child_def)
  qed
qed

lemma delete_shrinks:
  assumes "Tree_NodeDelete p h = Some (e, h')"
  shows "shrinks h h'"
  using assms
proof (cases rule: delete_cases)
  case (non_leaf a n)
  then show ?thesis by (simp add: shrinks_refl)
next
  case (root a n)
  then show ?thesis
    by (auto simp: shrinks_def empty_node_def split: option.splits)
next
  case (child a n q Q)
  then show ?thesis
    by (auto simp: shrinks_def empty_node_def unlink_child_def split: option.splits)
qed

lemma clear_left_preserves:
  assumes inv: "no_orphan h" and q: "h q = Some Q"
    and l: "left Q = None \<or> (\<exists>a n. left Q = Some a \<and> h a = Some n \<and> parent n = None)"
  shows "no_orphan (h(q \<mapsto> Q\<lparr>left := None\<rparr>))"
proof (rule no_orphanI)
  fix x nx p
  assume x: "(h(q \<mapsto> Q\<lparr>left := None\<rparr>)) x = Some nx" and px: "parent nx = Some p"
  obtain n0 where hx: "h x = Some n0" and p0: "parent n0 = Some p"
    using x px q by (cases "x = q") auto
  from no_orphanD[OF inv hx p0] obtain P where P: "h p = Some P"
    and s: "left P = Some x \<or> right P = Some x"
    by blast
  show "\<exists>P. (h(q \<mapsto> Q\<lparr>left := None\<rparr>)) p = Some P \<and> (left P = Some x \<or> right P = Some x)"
  proof (cases "p = q")
    case False
    then show ?thesis using P s by simp
  next
    case True
    then have "right Q = Some x"
      using P s q l hx p0 by auto
    then show ?thesis using True by simp
  qed
qed

lemma clear_right_preserves:
  assumes inv: "no_orphan h" and q: "h q = Some Q"
    and l: "right Q = None \<or> (\<exists>a n. right Q = Some a \<and> h a = Some n \<and> parent n = None)"
  shows "no_orphan (h(q \<mapsto> Q\<lparr>right := None\<rparr>))"
proof (rule no_orphanI)
  fix x nx p
  assume x: "(h(q \<mapsto> Q\<lparr>right := None\<rparr>)) x = Some nx" and px: "parent nx = Some p"
  obtain n0 where hx: "h x = Some n0" and p0: "parent n0 = Some p"
    using x px q by (cases "x = q") auto
  from no_orphanD[OF inv hx p0] obtain P where P: "h p = Some P"
    and s: "left P = Some x \<or> right P = Some x"
    by blast
  show "\<exists>P. (h(q \<mapsto> Q\<lparr>right := None\<rparr>)) p = Some P \<and> (left P = Some x \<or> right P = Some x)"
  proof (cases "p = q")
    case False
    then show ?thesis using P s by simp
  next
    case True
    then have "left Q = Some x"
      using P s q l hx p0 by auto
    then show ?thesis using True by simp
  qed
qed

lemma store_ref_none_post:
  assumes st: "store_ref rr None (s2\<lparr>heap := h3\<rparr>) = Some s4"
    and ld: "load_ref rr s = Some (Some a)"
    and sh: "shrinks (heap s) h3"
    and a: "h3 a = Some empty_node"
  shows "load_ref rr s4 = Some None \<and> shrinks h3 (heap s4) \<and>
         (no_orphan h3 \<longrightarrow> no_orphan (heap s4))"
proof (cases rr)
  case (Var v)
  then show ?thesis
    using st by (auto simp: shrinks_refl split: option.splits)
next
  case (LeftOf q)
  from ld LeftOf obtain Q where Q: "heap s q = Some Q" and lQ: "left Q = Some a"
    by auto
  from shrinksD[OF sh Q] obtain Q3 where Q3: "h3 q = Some Q3"
    and l3: "left Q3 = None \<or> left Q3 = left Q"
    by blast
  have s4: "heap s4 = h3(q \<mapsto> Q3\<lparr>left := None\<rparr>)" and "load_ref rr s4 = Some None"
    using st LeftOf Q3 by (auto simp: store_node_def)
  moreover have "shrinks h3 (h3(q \<mapsto> Q3\<lparr>left := None\<rparr>))"
    using Q3 by (auto simp: shrinks_def split: option.splits)
  moreover have "no_orphan (h3(q \<mapsto> Q3\<lparr>left := None\<rparr>))" if "no_orphan h3"
    by (rule clear_left_preserves[OF that Q3]) (use l3 lQ a in \<open>auto simp: empty_node_def\<close>)
  ultimately show ?thesis by simp
next
  case (RightOf q)
  from ld RightOf obtain Q where Q: "heap s q = Some Q" and lQ: "right Q = Some a"
    by auto
  from shrinksD[OF sh Q] obtain Q3 where Q3: "h3 q = Some Q3"
    and l3: "right Q3 = None \<or> right Q3 = right Q"
    by blast
  have s4: "heap s4 = h3(q \<mapsto> Q3\<lparr>right := None\<rparr>)" and "load_ref rr s4 = Some None"
    using st RightOf Q3 by (auto simp: store_node_def)
  moreover have "shrinks h3 (h3(q \<mapsto> Q3\<lparr>right := None\<rparr>))"
    using Q3 by (auto simp: shrinks_def split: option.splits)
  moreover have "no_orphan (h3(q \<mapsto> Q3\<lparr>right := None\<rparr>))" if "no_orphan h3"
    by (rule clear_right_preserves[OF that Q3]) (use l3 lQ a in \<open>auto simp: empty_node_def\<close>)
  ultimately show ?thesis by simp
qed

lemma subtree_step:
  assumes ld: "load_ref rr s = Some (Some a)"
    and p1: "subtree_post (Some (LeftOf a)) s s1"
    and p2: "subtree_post (Some (RightOf a)) s1 s2"
    and d: "Tree_NodeDelete (Some a) (heap s2) = Some (e3, h3)"
    and st: "store_ref rr None (s2\<lparr>heap := h3\<rparr>) = Some s4"
  shows "subtree_post (Some rr) s s4"
proof -
  from p1 obtain A1 where A1: "heap s1 a = Some A1" and l1: "left A1 = None"
    by (auto simp: subtree_post_def)
  from p2 obtain A2 where A2: "heap s2 a = Some A2" and r2: "right A2 = None"
    by (auto simp: subtree_post_def)
  have sh1: "shrinks (heap s) (heap s1)" and sh2: "shrinks (heap s1) (heap s2)"
    using p1 p2 by (simp_all add: subtree_post_def)
  have l2: "left A2 = None"
    using shrinksD[OF sh2 A1] A2 l1 by auto
  have e: "h3 a = Some empty_node"
    using d
  proof (cases rule: delete_cases)
    case (non_leaf a' n)
    then show ?thesis using A2 l2 r2 by auto
  next
    case (root a' n)
    then show ?thesis by simp
  next
    case (child a' n q Q)
    then show ?thesis by simp
  qed
  have sh3: "shrinks (heap s) h3"
    using shrinks_trans[OF shrinks_trans[OF sh1 sh2] delete_shrinks[OF d]] .
  from store_ref_none_post[OF st ld sh3 e]
  have "load_ref rr s4 = Some None" and sh4: "shrinks h3 (heap s4)"
    and i4: "no_orphan h3 \<longrightarrow> no_orphan (heap s4)"
    by simp_all
  moreover have "shrinks (heap s) (heap s4)"
    using shrinks_trans[OF sh3 sh4] .
  moreover have "no_orphan (heap s4)" if "no_orphan (heap s)"
  proof -
    have "no_orphan (heap s2)"
      using that p1 p2 by (simp add: subtree_post_def)
    then have "no_orphan h3"
      using delete_preserves[OF _ d] by simp
    then show ?thesis using i4 by simp
  qed
  ultimately show ?thesis
    by (simp add: subtree_post_def)
qed

lemma subtree_delete_post:
  "Tree_SubTreeDelete_Static r s = Some y \<Longrightarrow> subtree_post r s (snd y)"
proof (induction rule: Tree_SubTreeDelete_Static.raw_induct[rotated 1, consumes 1, case_names step])
  case (step del r s y)
  from step(2) obtain rr pn where r: "r = Some rr" and ld: "load_ref rr s = Some pn"
    by (auto split: option.splits bind_splits)
  show ?case
  proof (cases pn)
    case None
    then have "y = (ERR_FAILURE, s)"
      using step(2) r ld by simp
    then show ?thesis
      using r ld None by (simp add: subtree_post_def shrinks_refl)
  next
    case (Some a)
    with step(2) r ld obtain y1 y2 e3 h3 s4 where
      c1: "del (Some (LeftOf a)) s = Some y1" and
      c2: "del (Some (RightOf a)) (snd y1) = Some y2" and
      c3: "Tree_NodeDelete (Some a) (heap (snd y2)) = Some (e3, h3)" and
      c4: "store_ref rr None ((snd y2)\<lparr>heap := h3\<rparr>) = Some s4" and
      y: "y = (ERR_SUCCESS, s4)"
      by (auto split: bind_splits prod.splits)
    have "subtree_post (Some rr) s s4"
      by (rule subtree_step[OF _ step(1)[OF c1] step(1)[OF c2] c3 c4]) (use ld Some in simp)
    then show ?thesis
      using r y by simp
  qed
qed

lemma apply_op_preserves:
  assumes "no_orphan (heap s)" and "init_on_childless x s" and "apply_op x s = Some s'"
  shows "no_orphan (heap s')"
proof (cases x)
  case (OpInit p)
  then show ?thesis
    using assms by (auto split: bind_splits intro: init_preserves)
next
  case (OpAppend p q m)
  then show ?thesis
    using assms by (auto split: bind_splits intro: append_preserves)
next
  case (OpDelete p)
  then show ?thesis
    using assms by (auto split: bind_splits intro: delete_preserves)
next
  case (OpSubTreeDelete r)
  then obtain y where "Tree_SubTreeDelete_Static r s = Some y" and "s' = snd y"
    using assms(3) by (auto split: bind_splits)
  then show ?thesis
    using subtree_delete_post[of r s y] assms(1) by (simp add: subtree_post_def)
qed

lemma run_preserves:
  "no_orphan (heap s0) \<Longrightarrow> along_run init_on_childless ops s0 \<Longrightarrow> run ops s0 = Some s \<Longrightarrow>
   no_orphan (heap s)"
proof (induction ops arbitrary: s0)
  case Nil
  then show ?case by simp
next
  case (Cons x xs)
  from Cons.prems(3) obtain s1 where s1: "apply_op x s0 = Some s1" and r: "run xs s1 = Some s"
    by (auto split: bind_splits)
  have "no_orphan (heap s1)"
    by (rule apply_op_preserves[OF Cons.prems(1) _ s1]) (use Cons.prems(2) in simp)
  moreover have "along_run init_on_childless xs s1"
    using Cons.prems(2) s1 by simp
  ultimately show ?case
    using Cons.IH r by blast
qed

lemma initialized_no_orphan:
  assumes "initialized s"
  shows "no_orphan (heap s)"
proof (rule no_orphanI)
  fix a n p
  assume "heap s a = Some n" and p: "parent n = Some p"
  then have "n = empty_node"
    using assms by (simp add: initialized_def)
  then show "\<exists>P. heap s p = Some P \<and> (left P = Some a \<or> right P = Some a)"
    using p by (simp add: empty_node_def)
qed

text \<open>
  C10, as the specification states it, fails: from three initialized nodes, append a fresh
  node to a parent and then call \<^verbatim>\<open>Tree_NodeInit\<close> on the parent. No node was attached
  twice, yet the child's parent field still names the parent, whose slots are now absent.
\<close>

theorem init_orphans_child:
  "initialized fresh_state \<and>
   along_run attaches_unattached
     [OpAppend (Some 10) (Some 20) (INSERT_POS_LEFT :: 32 word), OpInit (Some 10)] fresh_state \<and>
   run [OpAppend (Some 10) (Some 20) (INSERT_POS_LEFT :: 32 word), OpInit (Some 10)] fresh_state
     = Some orphan_state \<and>
   heap orphan_state 20 = Some \<lparr>parent = Some 10, left = None, right = None, data = None\<rparr> \<and>
   heap orphan_state 10 = Some empty_node \<and>
   \<not> no_orphan (heap orphan_state)"
proof -
  have i: "initialized fresh_state"
    by (simp add: initialized_def fresh_state_def)
  have a: "\<not> attached (heap fresh_state) 20"
    by (auto simp: attached_def fresh_state_def empty_node_def split: if_splits)
  have r1: "apply_op (OpAppend (Some 10) (Some 20) (INSERT_POS_LEFT :: 32 word)) fresh_state =
      Some \<lparr>heap = [10 \<mapsto> \<lparr>parent = None, left = Some 20, right = None, data = None\<rparr>,
              20 \<mapsto> \<lparr>parent = Some 10, left = None, right = None, data = None\<rparr>,
              30 \<mapsto> empty_node],
      vars = [0 \<mapsto> Some 10]\<rparr>"
    by (auto simp: append_left fresh_state_def store_node_def empty_node_def fun_eq_iff)
  have r: "run [OpAppend (Some 10) (Some 20) (INSERT_POS_LEFT :: 32 word), OpInit (Some 10)] fresh_state
     = Some orphan_state"
  proof -
    have "run [OpAppend (Some 10) (Some 20) (INSERT_POS_LEFT :: 32 word), OpInit (Some 10)]
            fresh_state =
          apply_op (OpInit (Some 10) :: 32 word op)
            \<lparr>heap = [10 \<mapsto> \<lparr>parent = None, left = Some 20, right = None, data = None\<rparr>,
              20 \<mapsto> \<lparr>parent = Some 10, left = None, right = None, data = None\<rparr>,
              30 \<mapsto> empty_node],
      vars = [0 \<mapsto> Some 10]\<rparr>"
      by (simp add: r1 del: apply_op.simps)
    also have "\<dots> = Some orphan_state"
      by (auto simp: Tree_NodeInit_def store_node_def orphan_state_def fun_eq_iff)
    finally show ?thesis .
  qed
  have n: "\<not> no_orphan (heap orphan_state)"
  proof
    assume "no_orphan (heap orphan_state)"
    then have "\<exists>P. heap orphan_state 10 = Some P \<and> (left P = Some 20 \<or> right P = Some 20)"
      unfolding no_orphan_def
      by (rule allE[where x = 20], elim allE[where x = "\<lparr>parent = Some 10, left = None, right = None, data = None\<rparr>"] allE[where x = 10])
         (simp add: orphan_state_def)
    then show False
      by (simp add: orphan_state_def empty_node_def)
  qed
  show ?thesis
    using i a r1 r n by (simp add: orphan_state_def)
qed

text \<open>
  C10, amended. Start from initialized nodes and apply any sequence of init, append,
  delete and subtree delete in which every init is given a node without children
  (appends are not restricted). Then every state the run reaches satisfies: a node whose
  parent field is present is held by the left or right slot of that parent.
\<close>

theorem no_orphan_along_runs:
  assumes "initialized s0" and "along_run init_on_childless ops s0" and "run ops s0 = Some s"
  shows "no_orphan (heap s)"
  using run_preserves[OF initialized_no_orphan[OF assms(1)] assms(2,3)] .

theorem no_orphan_along_runs_witness:
  "initialized fresh_state \<and>
   along_run init_on_childless
     [OpInit (Some 30), OpAppend (Some 10) (Some 20) (INSERT_POS_LEFT :: 32 word),
      OpAppend (Some 20) (Some 30) INSERT_POS_RIGHT, OpDelete (Some 30),
      OpSubTreeDelete (Some (Var 0))] fresh_state \<and>
   run [OpInit (Some 30), OpAppend (Some 10) (Some 20) (INSERT_POS_LEFT :: 32 word),
      OpAppend (Some 20) (Some 30) INSERT_POS_RIGHT, OpDelete (Some 30),
      OpSubTreeDelete (Some (Var 0))] fresh_state = Some cleared_state \<and>
   no_orphan (heap cleared_state)"
proof -
  let ?o1 = "OpInit (Some 30) :: 32 word op"
  let ?o2 = "OpAppend (Some 10) (Some 20) (INSERT_POS_LEFT :: 32 word)"
  let ?o3 = "OpAppend (Some 20) (Some 30) (INSERT_POS_RIGHT :: 32 word)"
  let ?o4 = "OpDelete (Some 30) :: 32 word op"
  let ?o5 = "OpSubTreeDelete (Some (Var 0)) :: 32 word op"
  let ?s2 = "\<lparr>heap = [10 \<mapsto> \<lparr>parent = None, left = Some 20, right = None, data = None\<rparr>,
                    20 \<mapsto> \<lparr>parent = Some 10, left = None, right = None, data = None\<rparr>,
                    30 \<mapsto> empty_node],
            vars = [0 \<mapsto> Some 10]\<rparr>"
  let ?s3 = "\<lparr>heap = [10 \<mapsto> \<lparr>parent = None, left = Some 20, right = None, data = None\<rparr>,
                    20 \<mapsto> \<lparr>parent = Some 10, left = None, right = Some 30, data = None\<rparr>,
                    30 \<mapsto> \<lparr>parent = Some 20, left = None, right = None, data = None\<rparr>],
            vars = [0 \<mapsto> Some 10]\<rparr>"
  have i: "initialized fresh_state"
    by (simp add: initialized_def fresh_state_def)
  have c1: "init_on_childless ?o1 fresh_state"
    by (simp add: fresh_state_def empty_node_def)
  have a1: "apply_op ?o1 fresh_state = Some fresh_state"
    by (auto simp: Tree_NodeInit_def store_node_def fresh_state_def fun_eq_iff)
  have a2: "apply_op ?o2 fresh_state = Some ?s2"
    by (auto simp: append_left store_node_def fresh_state_def empty_node_def fun_eq_iff)
  have a3: "apply_op ?o3 ?s2 = Some ?s3"
    by (auto simp: append_right store_node_def empty_node_def fun_eq_iff)
  have a4: "apply_op ?o4 ?s3 = Some ?s2"
    by (auto simp: Tree_NodeDelete_def Tree_NodeInit_def store_node_def fun_eq_iff)
  have a5: "apply_op ?o5 ?s2 = Some cleared_state"
    by (auto simp: subtree_present subtree_absent Tree_NodeDelete_def Tree_NodeInit_def
        store_node_def cleared_state_def fun_eq_iff)
  have al: "along_run init_on_childless [?o1, ?o2, ?o3, ?o4, ?o5] fresh_state"
    using c1 by (simp add: a1 a2 a3 a4 a5 del: apply_op.simps)
  have r: "run [?o1, ?o2, ?o3, ?o4, ?o5] fresh_state = Some cleared_state"
    by (simp add: a1 a2 a3 a4 a5 del: apply_op.simps)
  show ?thesis
    using i al r no_orphan_along_runs[OF i al r] by simp
qed

end
